theory Spec2Isabelle
  imports Main
begin

section \<open>The value model\<close>

text \<open>
  The JavaScript values that \<^verbatim>\<open>Parse\<close> and \<^verbatim>\<open>Stringify\<close> of \<^verbatim>\<open>src/index.js\<close> handle.
  The type parameter \<open>'n\<close> stands for the host's Number type (an IEEE double in the
  source); a \<open>Date\<close> wraps its time value, a Number as well. An array is the list of
  its elements, a hole reading as \<open>Undefined\<close> (the source reads arrays by index only).
  An object is the list of its own enumerable properties in \<^verbatim>\<open>for ... in\<close> order
  (ordinary data properties: an own property named \<^verbatim>\<open>__proto__\<close> is outside the
  model). A function value is \<open>Fun\<close>.
\<close>

datatype 'n "value" =
    Undefined
  | Null
  | Bool bool
  | Num 'n
  | Str string
  | Date 'n
  | Arr "'n value list"
  | Obj "(string \<times> 'n value) list"
  | Fun

text \<open>
  The first argument of a replacer or reviver: the loop counter \<^verbatim>\<open>n\<close> for an array
  element, the property name for an object property.
\<close>

datatype key = KNum nat | KStr string

datatype error =
    TypeError
  | RangeError
  | Thrown string
  | ParserError string
  | Unmodelled

text \<open>
  A computation returns \<open>None\<close> when it does not return at all (the recursion of the
  source never ends), \<open>Some (Inl e)\<close> when it throws \<open>e\<close>, and \<open>Some (Inr x)\<close> when it
  returns \<open>x\<close>.
\<close>

type_synonym 'a res = "(error + 'a) option"

abbreviation Ret :: "'a \<Rightarrow> 'a res" where
  "Ret x \<equiv> Some (Inr x)"

abbreviation Raise :: "error \<Rightarrow> 'a res" where
  "Raise e \<equiv> Some (Inl e)"

type_synonym 'n transform = "key \<Rightarrow> 'n value \<Rightarrow> error + 'n value"

text \<open>
  The built-ins of the host the source calls on numbers and dates: \<^verbatim>\<open>parseFloat(t)\<close>,
  \<^verbatim>\<open>new Date(t)\<close>, \<^verbatim>\<open>Number.prototype.toString\<close> and \<^verbatim>\<open>Date.prototype.toISOString\<close>
  (which throws a RangeError on an invalid date: \<open>None\<close>).
\<close>

record 'n host =
  parseFloat :: "string \<Rightarrow> 'n"
  newDate :: "string \<Rightarrow> 'n"
  Number_toString :: "'n \<Rightarrow> string"
  toISOString :: "'n \<Rightarrow> string option"

subsection \<open>Array indices as property names\<close>

definition digit_char :: "nat \<Rightarrow> char" where
  "digit_char d = ''0123456789'' ! d"

text \<open>The text of a loop counter \<^verbatim>\<open>n\<close>, as \<^verbatim>\<open>writeAttribute('name', n)\<close> writes it.\<close>

function show_nat :: "nat \<Rightarrow> string" where
  "show_nat n = (if n < 10 then [digit_char n] else show_nat (n div 10) @ [digit_char (n mod 10)])"
  by pat_completeness auto
termination
  by (relation "measure id") auto

declare show_nat.simps [simp del]

definition digit_val :: "char \<Rightarrow> nat option" where
  "digit_val c =
     map_of [(CHR ''0'', 0), (CHR ''1'', 1), (CHR ''2'', 2), (CHR ''3'', 3), (CHR ''4'', 4),
             (CHR ''5'', 5), (CHR ''6'', 6), (CHR ''7'', 7), (CHR ''8'', 8), (CHR ''9'', 9)] c"

fun dec_value :: "nat \<Rightarrow> string \<Rightarrow> nat option" where
  "dec_value acc [] = Some acc"
| "dec_value acc (c # cs) =
     (case digit_val c of None \<Rightarrow> None | Some d \<Rightarrow> dec_value (10 * acc + d) cs)"

text \<open>
  A property name is an array index when it is the canonical decimal text of a number
  below \<open>2^32 - 1\<close>. On an array such a name addresses an element; on an object such
  names are enumerated first, in ascending order.
\<close>

definition array_index :: "string \<Rightarrow> nat option" where
  "array_index s =
     (if s = [] \<or> (hd s = CHR ''0'' \<and> s \<noteq> ''0'') then None
      else case dec_value 0 s of
             None \<Rightarrow> None
           | Some n \<Rightarrow> if int n < 4294967295 then Some n else None)"

subsection \<open>Property assignment\<close>

fun insert_index :: "nat \<Rightarrow> string \<Rightarrow> 'v \<Rightarrow> (string \<times> 'v) list \<Rightarrow> (string \<times> 'v) list" where
  "insert_index i k v [] = [(k, v)]"
| "insert_index i k v (p # ps) =
     (case array_index (fst p) of
        None \<Rightarrow> (k, v) # p # ps
      | Some j \<Rightarrow> if j < i then p # insert_index i k v ps else (k, v) # p # ps)"

fun replace_prop :: "string \<Rightarrow> 'v \<Rightarrow> (string \<times> 'v) list \<Rightarrow> (string \<times> 'v) list" where
  "replace_prop k v [] = []"
| "replace_prop k v (p # ps) =
     (if fst p = k then (k, v) # ps else p # replace_prop k v ps)"

text \<open>
  \<^verbatim>\<open>o[k] = v\<close> on an ordinary object: an existing property keeps its place, a new
  index-like name is placed among the index-like names in ascending order, any other
  new name goes last.
\<close>

definition obj_set :: "string \<Rightarrow> 'v \<Rightarrow> (string \<times> 'v) list \<Rightarrow> (string \<times> 'v) list" where
  "obj_set k v ps =
     (if map_of ps k \<noteq> None then replace_prop k v ps
      else case array_index k of
             None \<Rightarrow> ps @ [(k, v)]
           | Some i \<Rightarrow> insert_index i k v ps)"

text \<open>\<^verbatim>\<open>a[i] = v\<close> on an array: past the end, the array grows and the gap is holes.\<close>

definition arr_set :: "nat \<Rightarrow> 'n value \<Rightarrow> 'n value list \<Rightarrow> 'n value list" where
  "arr_set i v xs =
     (if i < length xs then xs[i := v]
      else xs @ replicate (i - length xs) Undefined @ [v])"

section \<open>The transform walk shared by clone and revive\<close>

text \<open>
  Lines 95--102 and 170--176: \<^verbatim>\<open>for (n = 0; n < value.length; n++)\<close>, calling the
  transform on \<^verbatim>\<open>(n, value[n])\<close> and pushing the recursive image of every result
  that is not \<^verbatim>\<open>undefined\<close>. \<open>rec\<close> is the recursive call.
\<close>

fun walk_array ::
  "'n transform \<Rightarrow> ('n value \<Rightarrow> 'n value res) \<Rightarrow> nat \<Rightarrow> 'n value list \<Rightarrow> 'n value list \<Rightarrow>
     'n value list res" where
  "walk_array f rec n [] result = Ret result"
| "walk_array f rec n (x # xs) result =
     (case f (KNum n) x of
        Inl e \<Rightarrow> Raise e
      | Inr element \<Rightarrow>
          if element = Undefined then walk_array f rec (Suc n) xs result
          else (case rec element of
                  None \<Rightarrow> None
                | Some (Inl e) \<Rightarrow> Raise e
                | Some (Inr c) \<Rightarrow> walk_array f rec (Suc n) xs (result @ [c])))"

text \<open>
  Lines 105--111 and 178--184: \<^verbatim>\<open>for (let key in value)\<close>, calling the transform on
  \<^verbatim>\<open>(key, value[key])\<close> and assigning \<^verbatim>\<open>result[key]\<close> for every result that is not
  \<^verbatim>\<open>undefined\<close>.
\<close>

fun walk_object ::
  "'n transform \<Rightarrow> ('n value \<Rightarrow> 'n value res) \<Rightarrow> (string \<times> 'n value) list \<Rightarrow>
     (string \<times> 'n value) list \<Rightarrow> (string \<times> 'n value) list res" where
  "walk_object f rec [] result = Ret result"
| "walk_object f rec (p # ps) result =
     (case f (KStr (fst p)) (snd p) of
        Inl e \<Rightarrow> Raise e
      | Inr element \<Rightarrow>
          if element = Undefined then walk_object f rec ps result
          else (case rec element of
                  None \<Rightarrow> None
                | Some (Inl e) \<Rightarrow> Raise e
                | Some (Inr c) \<Rightarrow> walk_object f rec ps (obj_set (fst p) c result)))"

definition map_res :: "('a \<Rightarrow> 'b) \<Rightarrow> 'a res \<Rightarrow> 'b res" where
  "map_res g r = (case r of None \<Rightarrow> None | Some (Inl e) \<Rightarrow> Raise e | Some (Inr x) \<Rightarrow> Ret (g x))"

section \<open>Stringify\<close>

subsection \<open>The clone-and-filter pass (lines 165--191)\<close>

text \<open>
  \<^verbatim>\<open>clone\<close> recurses into whatever the replacer returns, so it need not return: the
  first argument bounds the depth of the recursion, and \<open>None\<close> says the bound was
  reached. \<^verbatim>\<open>typeof null === 'object'\<close>, so \<open>Null\<close> takes the object branch, whose
  loop has nothing to enumerate.
\<close>

fun clone :: "nat \<Rightarrow> 'n transform \<Rightarrow> 'n value \<Rightarrow> 'n value res" where
  "clone 0 replacer source = None"
| "clone (Suc fuel) replacer (Date d) = Ret (Date d)"
| "clone (Suc fuel) replacer (Arr xs) =
     map_res Arr (walk_array replacer (clone fuel replacer) 0 xs [])"
| "clone (Suc fuel) replacer (Obj ps) =
     map_res Obj (walk_object replacer (clone fuel replacer) ps [])"
| "clone (Suc fuel) replacer Null = Ret (Obj [])"
| "clone (Suc fuel) replacer source = Ret source"

subsection \<open>The calls made on the XML writer\<close>

datatype writer_call =
    StartDocument string string bool
  | StartElement string
  | WriteAttribute string string
  | Text string
  | EndElement
  | EndDocument

fun typeof :: "'n value \<Rightarrow> string" where
  "typeof Undefined = ''undefined''"
| "typeof Null = ''object''"
| "typeof (Bool b) = ''boolean''"
| "typeof (Num n) = ''number''"
| "typeof (Str s) = ''string''"
| "typeof Fun = ''function''"
| "typeof v = ''object''"

fun getTagname :: "'n value \<Rightarrow> string" where
  "getTagname (Date d) = ''date''"
| "getTagname (Arr xs) = ''array''"
| "getTagname v = typeof v"

definition append_calls ::
  "writer_call list \<Rightarrow> error + writer_call list \<Rightarrow> error + writer_call list" where
  "append_calls cs r = (case r of Inl e \<Rightarrow> Inl e | Inr ds \<Rightarrow> Inr (cs @ ds))"

text \<open>
  \<^verbatim>\<open>stringifyValue\<close> (lines 201--225), as the list of writer calls it makes, or the
  error it throws: \<^verbatim>\<open>toISOString\<close> on an invalid date, \<^verbatim>\<open>value.toString()\<close> on
  \<^verbatim>\<open>undefined\<close>. The two loops skip an entry whose value is a function, the array
  loop's counter moving on.
\<close>

fun stringifyValue :: "'n host \<Rightarrow> 'n value \<Rightarrow> error + writer_call list"
  and stringify_array :: "'n host \<Rightarrow> nat \<Rightarrow> 'n value list \<Rightarrow> error + writer_call list"
  and stringify_object :: "'n host \<Rightarrow> (string \<times> 'n value) list \<Rightarrow> error + writer_call list"
where
  "stringifyValue h (Date d) =
     (case toISOString h d of None \<Rightarrow> Inl RangeError | Some s \<Rightarrow> Inr [Text s])"
| "stringifyValue h (Arr xs) = stringify_array h 0 xs"
| "stringifyValue h (Obj ps) = stringify_object h ps"
| "stringifyValue h Null = Inr []"
| "stringifyValue h Fun = Inr []"
| "stringifyValue h Undefined = Inl TypeError"
| "stringifyValue h (Bool b) = Inr [Text (if b then ''true'' else ''false'')]"
| "stringifyValue h (Num n) = Inr [Text (Number_toString h n)]"
| "stringifyValue h (Str s) = Inr [Text s]"
| "stringify_array h n [] = Inr []"
| "stringify_array h n (x # xs) =
     (if typeof x = ''function'' then stringify_array h (Suc n) xs
      else case stringifyValue h x of
             Inl e \<Rightarrow> Inl e
           | Inr body \<Rightarrow>
               append_calls
                 ([StartElement (getTagname x), WriteAttribute ''name'' (show_nat n)] @ body @
                  [EndElement])
                 (stringify_array h (Suc n) xs))"
| "stringify_object h [] = Inr []"
| "stringify_object h (p # ps) =
     (if typeof (snd p) = ''function'' then stringify_object h ps
      else case stringifyValue h (snd p) of
             Inl e \<Rightarrow> Inl e
           | Inr body \<Rightarrow>
               append_calls
                 ([StartElement (getTagname (snd p)), WriteAttribute ''name'' (fst p)] @ body @
                  [EndElement])
                 (stringify_object h ps))"

subsection \<open>The arguments and the result (lines 146--163, 227--232)\<close>

datatype 'n replacer_arg =
    NoReplacer
  | ReplacerFun "'n transform"
  | ReplacerKeys "key list"

datatype space_arg =
    NoSpace
  | SpaceNum int
  | SpaceStr string

text \<open>
  Lines 147--149: a number becomes \<^verbatim>\<open>' '.repeat(space)\<close>, which throws a RangeError
  on a negative count; anything else is handed to the writer as it is.
\<close>

fun normalize_space :: "space_arg \<Rightarrow> error + string option" where
  "normalize_space NoSpace = Inr None"
| "normalize_space (SpaceStr s) = Inr (Some s)"
| "normalize_space (SpaceNum n) =
     (if n < 0 then Inl RangeError else Inr (Some (replicate (nat n) CHR '' '')))"

text \<open>
  Lines 151--163: an array of keys becomes the function that returns \<^verbatim>\<open>undefined\<close>
  unless \<^verbatim>\<open>keys.indexOf(key) >= 0\<close>; no replacer becomes the identity.
\<close>

fun normalize_replacer :: "'n replacer_arg \<Rightarrow> 'n transform" where
  "normalize_replacer NoReplacer = (\<lambda>key v. Inr v)"
| "normalize_replacer (ReplacerFun f) = f"
| "normalize_replacer (ReplacerKeys keys) =
     (\<lambda>key v. if key \<notin> set keys then Inr Undefined else Inr v)"

text \<open>
  What \<^verbatim>\<open>Stringify\<close> hands to the writer: the indentation argument of
  \<^verbatim>\<open>new XMLWriter(space)\<close> and the calls made on it, in order.
\<close>

record writer_output =
  indent :: "string option"
  calls :: "writer_call list"

definition Stringify ::
  "'n host \<Rightarrow> nat \<Rightarrow> 'n value \<Rightarrow> 'n replacer_arg \<Rightarrow> space_arg \<Rightarrow> writer_output res" where
  "Stringify h fuel v replacer space =
     (case normalize_space space of
        Inl e \<Rightarrow> Raise e
      | Inr sp \<Rightarrow>
          (case clone fuel (normalize_replacer replacer) v of
             None \<Rightarrow> None
           | Some (Inl e) \<Rightarrow> Raise e
           | Some (Inr c) \<Rightarrow>
               (case stringifyValue h c of
                  Inl e \<Rightarrow> Raise e
                | Inr body \<Rightarrow>
                    Ret \<lparr>indent = sp,
                         calls = [StartDocument ''1.0'' ''UTF-8'' True, StartElement (getTagname c)] @
                                 body @ [EndElement, EndDocument]\<rparr>)))"

section \<open>Parse\<close>

subsection \<open>What the XML parser reports\<close>

text \<open>
  The tag object the parser passes to \<^verbatim>\<open>onopentag\<close>: \<^verbatim>\<open>node.name\<close>,
  \<^verbatim>\<open>node.attributes.name\<close> (\<open>None\<close> when the element has no such attribute) and
  \<^verbatim>\<open>node.isSelfClosing\<close>.
\<close>

record tag =
  tag_name :: string
  attr_name :: "string option"
  isSelfClosing :: bool

datatype sax_event =
    OpenTag tag
  | TextEvent string
  | CloseTag string
  | ErrorEvent string

text \<open>
  The run of \<^verbatim>\<open>parser.write(xml).close()\<close> on one input: the callbacks the parser
  makes, in order, and the error the call itself throws after them, if any.
\<close>

record sax_run =
  events :: "sax_event list"
  thrown :: "string option"

subsection \<open>The state of the handlers (lines 16--20)\<close>

text \<open>
  \<^verbatim>\<open>current\<close> and \<^verbatim>\<open>node.parentObject\<close> hold references to containers of the tree
  under \<^verbatim>\<open>obj\<close>. A reference is the list of property names that leads from
  \<^verbatim>\<open>obj\<close> to the container; \<open>None\<close> is \<^verbatim>\<open>undefined\<close>.
\<close>

type_synonym ref = "string list"

datatype data_type = Unset | Basic | ArrayType | ObjectType | NullType

record node = tag +
  dataType :: data_type
  parentObject :: "ref option"

datatype root_key = RootNull | RootUndefined | RootName string

text \<open>The stack \<^verbatim>\<open>path\<close> has its top, \<^verbatim>\<open>path[path.length - 1]\<close>, at the head.\<close>

record 'n parse_state =
  path :: "node list"
  obj :: "'n value"
  current :: "ref option"
  rootNode :: root_key
  console :: "string list"

definition initial :: "'n parse_state" where
  "initial = \<lparr>path = [], obj = Obj [], current = Some [], rootNode = RootNull, console = []\<rparr>"

text \<open>A property name made from \<^verbatim>\<open>node.attributes.name\<close>: \<^verbatim>\<open>undefined\<close> reads "undefined".\<close>

fun prop_key :: "string option \<Rightarrow> string" where
  "prop_key None = ''undefined''"
| "prop_key (Some s) = s"

fun prop_get :: "'n value \<Rightarrow> string \<Rightarrow> 'n value option" where
  "prop_get (Obj ps) k = map_of ps k"
| "prop_get (Arr xs) k =
     (case array_index k of
        None \<Rightarrow> None
      | Some i \<Rightarrow> if i < length xs then Some (xs ! i) else None)"
| "prop_get v k = None"

text \<open>
  \<^verbatim>\<open>container[k] = v\<close>. Left out of the model, as the error \<open>Unmodelled\<close>: the name
  \<^verbatim>\<open>__proto__\<close>, and on an array every name that is not an array index (\<^verbatim>\<open>length\<close>
  among them).
\<close>

fun prop_set :: "string \<Rightarrow> 'n value \<Rightarrow> 'n value \<Rightarrow> error + 'n value" where
  "prop_set k v (Obj ps) = (if k = ''__proto__'' then Inl Unmodelled else Inr (Obj (obj_set k v ps)))"
| "prop_set k v (Arr xs) =
     (case array_index k of None \<Rightarrow> Inl Unmodelled | Some i \<Rightarrow> Inr (Arr (arr_set i v xs)))"
| "prop_set k v c = Inl Unmodelled"

fun update_at :: "ref \<Rightarrow> ('n value \<Rightarrow> error + 'n value) \<Rightarrow> 'n value \<Rightarrow> error + 'n value" where
  "update_at [] f c = f c"
| "update_at (k # ks) f c =
     (case prop_get c k of
        None \<Rightarrow> Inl Unmodelled
      | Some sub \<Rightarrow>
          (case update_at ks f sub of
             Inl e \<Rightarrow> Inl e
           | Inr sub' \<Rightarrow> prop_set k sub' c))"

text \<open>\<^verbatim>\<open>current[k] = v\<close>: a TypeError when \<^verbatim>\<open>current\<close> is \<^verbatim>\<open>undefined\<close>.\<close>

definition assign :: "string \<Rightarrow> 'n value \<Rightarrow> 'n parse_state \<Rightarrow> error + 'n parse_state" where
  "assign k v st =
     (case current st of
        None \<Rightarrow> Inl TypeError
      | Some r \<Rightarrow>
          (case update_at r (prop_set k v) (obj st) of
             Inl e \<Rightarrow> Inl e
           | Inr o' \<Rightarrow> Inr (st\<lparr>obj := o'\<rparr>)))"

subsection \<open>The handlers (lines 22--84)\<close>

definition onerror :: "string \<Rightarrow> 'n parse_state \<Rightarrow> error + 'n parse_state" where
  "onerror e st = Inr (st\<lparr>console := console st @ [e]\<rparr>)"

definition new_node :: "tag \<Rightarrow> data_type \<Rightarrow> ref option \<Rightarrow> node" where
  "new_node t dt parent = tag.extend t \<lparr>dataType = dt, parentObject = parent\<rparr>"

text \<open>
  Lines 37--47: the new container is stored under the name in \<^verbatim>\<open>current\<close>, which is
  remembered in the node, and becomes \<^verbatim>\<open>current\<close>.
\<close>

definition descend :: "tag \<Rightarrow> data_type \<Rightarrow> 'n value \<Rightarrow> 'n parse_state \<Rightarrow> error + 'n parse_state" where
  "descend t dt container st =
     (case assign (prop_key (attr_name t)) container st of
        Inl e \<Rightarrow> Inl e
      | Inr st' \<Rightarrow>
          Inr (st'\<lparr>path := new_node t dt (current st) # path st,
                   current := map_option (\<lambda>r. r @ [prop_key (attr_name t)]) (current st)\<rparr>))"

text \<open>Line 27: the first element opened gives \<^verbatim>\<open>rootNode\<close> its \<^verbatim>\<open>name\<close> attribute.\<close>

definition note_root :: "tag \<Rightarrow> 'n parse_state \<Rightarrow> 'n parse_state" where
  "note_root t st =
     (if rootNode st = RootNull
      then st\<lparr>rootNode := (case attr_name t of None \<Rightarrow> RootUndefined | Some s \<Rightarrow> RootName s)\<rparr>
      else st)"

definition onopentag :: "tag \<Rightarrow> 'n parse_state \<Rightarrow> error + 'n parse_state" where
  "onopentag t st0 =
     (let st = note_root t st0
      in if \<not> isSelfClosing t then
           (if tag_name t = ''date'' \<or> tag_name t = ''number'' \<or> tag_name t = ''string'' \<or>
               tag_name t = ''boolean''
            then Inr (st\<lparr>path := new_node t Basic None # path st\<rparr>)
            else if tag_name t = ''array'' then descend t ArrayType (Arr []) st
            else descend t ObjectType (Obj []) st)
         else
           (case assign (prop_key (attr_name t)) Null st of
              Inl e \<Rightarrow> Inl e
            | Inr st' \<Rightarrow> Inr (st'\<lparr>path := new_node t NullType None # path st\<rparr>)))"

text \<open>Lines 59--72: the value of a text under the innermost open tag, \<open>None\<close> for \<^verbatim>\<open>undefined\<close>.\<close>

definition text_value :: "'n host \<Rightarrow> string \<Rightarrow> string \<Rightarrow> 'n value option" where
  "text_value h tg t =
     (if tg = ''date'' then Some (Date (newDate h t))
      else if tg = ''number'' then Some (Num (parseFloat h t))
      else if tg = ''string'' then Some (Str t)
      else if tg = ''boolean'' then Some (Bool (t = ''true''))
      else None)"

definition ontext :: "'n host \<Rightarrow> string \<Rightarrow> 'n parse_state \<Rightarrow> error + 'n parse_state" where
  "ontext h t st =
     (case path st of
        [] \<Rightarrow> Inr st
      | nd # rest \<Rightarrow>
          (case text_value h (tag_name nd) t of
             None \<Rightarrow> Inr st
           | Some v \<Rightarrow> assign (prop_key (attr_name nd)) v st))"

text \<open>
  Lines 79--84. A node that is not basic hands its \<^verbatim>\<open>parentObject\<close> to \<^verbatim>\<open>current\<close>;
  the node of a self-closing element never had one assigned.
\<close>

definition onclosetag :: "string \<Rightarrow> 'n parse_state \<Rightarrow> error + 'n parse_state" where
  "onclosetag tagname st =
     (case path st of
        [] \<Rightarrow> Inl TypeError
      | nd # rest \<Rightarrow>
          Inr (if dataType nd \<noteq> Basic then st\<lparr>path := rest, current := parentObject nd\<rparr>
               else st\<lparr>path := rest\<rparr>))"

fun handle :: "'n host \<Rightarrow> sax_event \<Rightarrow> 'n parse_state \<Rightarrow> error + 'n parse_state" where
  "handle h (OpenTag t) st = onopentag t st"
| "handle h (TextEvent t) st = ontext h t st"
| "handle h (CloseTag n) st = onclosetag n st"
| "handle h (ErrorEvent e) st = onerror e st"

text \<open>The callbacks of one run, until one of them throws.\<close>

fun parser_write :: "'n host \<Rightarrow> sax_event list \<Rightarrow> 'n parse_state \<Rightarrow> error + 'n parse_state" where
  "parser_write h [] st = Inr st"
| "parser_write h (ev # evs) st =
     (case handle h ev st of Inl e \<Rightarrow> Inl e | Inr st' \<Rightarrow> parser_write h evs st')"

subsection \<open>The reviver pass and the result (lines 89--120)\<close>

text \<open>
  \<^verbatim>\<open>revive\<close> recurses into whatever the reviver returns; the first argument bounds
  the depth of the recursion, as for \<open>clone\<close>.
\<close>

fun revive :: "nat \<Rightarrow> 'n transform \<Rightarrow> 'n value \<Rightarrow> 'n value res" where
  "revive 0 reviver v = None"
| "revive (Suc fuel) reviver (Date d) = Ret (Date d)"
| "revive (Suc fuel) reviver (Arr xs) =
     map_res Arr (walk_array reviver (revive fuel reviver) 0 xs [])"
| "revive (Suc fuel) reviver (Obj ps) =
     map_res Obj (walk_object reviver (revive fuel reviver) ps [])"
| "revive (Suc fuel) reviver Null = Ret (Obj [])"
| "revive (Suc fuel) reviver v = Ret v"

definition root_name :: "root_key \<Rightarrow> string" where
  "root_name r = (case r of RootNull \<Rightarrow> ''null'' | RootUndefined \<Rightarrow> ''undefined'' | RootName s \<Rightarrow> s)"

text \<open>
  The names every object inherits from \<^verbatim>\<open>Object.prototype\<close>: reading one that the
  object does not own is left out of the model.
\<close>

definition inherited_names :: "string list" where
  "inherited_names =
     [''__proto__'', ''constructor'', ''hasOwnProperty'', ''isPrototypeOf'',
      ''propertyIsEnumerable'', ''toLocaleString'', ''toString'', ''valueOf'',
      ''__defineGetter__'', ''__defineSetter__'', ''__lookupGetter__'', ''__lookupSetter__'']"

text \<open>\<^verbatim>\<open>obj[rootNode]\<close>: a missing property reads \<^verbatim>\<open>undefined\<close>.\<close>

definition read_root :: "'n value \<Rightarrow> string \<Rightarrow> error + 'n value" where
  "read_root ob k =
     (case prop_get ob k of
        Some v \<Rightarrow> Inr v
      | None \<Rightarrow> if k \<in> set inherited_names then Inl Unmodelled else Inr Undefined)"

definition Parse :: "'n host \<Rightarrow> sax_run \<Rightarrow> 'n transform option \<Rightarrow> nat \<Rightarrow> 'n value res" where
  "Parse h xml reviver fuel =
     (case parser_write h (events xml) initial of
        Inl e \<Rightarrow> Raise e
      | Inr st \<Rightarrow>
          (case thrown xml of
             Some e \<Rightarrow> Raise (ParserError e)
           | None \<Rightarrow>
               (case reviver of
                  None \<Rightarrow> Some (read_root (obj st) (root_name (rootNode st)))
                | Some f \<Rightarrow>
                    (case read_root (obj st) (root_name (rootNode st)) of
                       Inl e \<Rightarrow> Raise e
                     | Inr v \<Rightarrow>
                         (case revive fuel f v of
                            None \<Rightarrow> None
                          | Some (Inl e) \<Rightarrow> Raise e
                          | Some (Inr v') \<Rightarrow>
                              (case prop_set (root_name (rootNode st)) v' (obj st) of
                                 Inl e \<Rightarrow> Raise e
                               | Inr ob \<Rightarrow> Some (read_root ob (root_name (rootNode st)))))))))"

section \<open>From the writer's calls to the parser's events\<close>

text \<open>The open event of a start tag that is complete, if one is pending.\<close>

definition flush_tag :: "tag option \<Rightarrow> sax_event list" where
  "flush_tag pending = (case pending of None \<Rightarrow> [] | Some t \<Rightarrow> [OpenTag t])"

text \<open>
  Modelled from the spec: the XML writer and the XML parser are external collaborators
  (sections 1 and 6), not code of this repository. This is the composition of the two
  on a compact document (no indentation): the events the parser reports on the text the
  writer produces from a list of calls. An element that received no text call and no
  child is written self-closing (section 3: null is a self-closing element, and the
  calls for null are the start, the attribute and the end of an element), and is
  reported by an open event with \<^verbatim>\<open>isSelfClosing\<close> set followed by a close event
  (section 4.1: every element is pushed on open and popped on close). A text call is
  reported as one text event with the same content, escaping undone, except that an
  empty text yields no event (it still ends the start tag, so the element is not
  self-closing). An attribute with empty content is not written. The document
  prologue yields no event the handlers of \<^verbatim>\<open>Parse\<close> listen to. The second argument
  is the start tag still open for attributes, the third the names of the open elements.
\<close>

fun compact_events :: "writer_call list \<Rightarrow> tag option \<Rightarrow> string list \<Rightarrow> sax_event list" where
  "compact_events [] pending stack = flush_tag pending"
| "compact_events (StartDocument v e s # cs) pending stack = compact_events cs pending stack"
| "compact_events (EndDocument # cs) pending stack = compact_events cs pending stack"
| "compact_events (StartElement t # cs) pending stack =
     flush_tag pending @
     compact_events cs (Some \<lparr>tag_name = t, attr_name = None, isSelfClosing = False\<rparr>) (t # stack)"
| "compact_events (WriteAttribute k v # cs) pending stack =
     (case pending of
        None \<Rightarrow> compact_events cs pending stack
      | Some t \<Rightarrow>
          compact_events cs
            (Some (if k = ''name'' \<and> v \<noteq> [] then t\<lparr>attr_name := Some v\<rparr> else t)) stack)"
| "compact_events (Text s # cs) pending stack =
     (if stack = [] then compact_events cs pending stack
      else flush_tag pending @ (if s = [] then [] else [TextEvent s]) @
           compact_events cs None stack)"
| "compact_events (EndElement # cs) pending stack =
     (case stack of
        [] \<Rightarrow> compact_events cs pending stack
      | n # rest \<Rightarrow>
          (case pending of
             None \<Rightarrow> CloseTag n # compact_events cs None rest
           | Some t \<Rightarrow>
               OpenTag (t\<lparr>isSelfClosing := True\<rparr>) # CloseTag n # compact_events cs None rest))"

definition parser_run :: "writer_output \<Rightarrow> sax_run" where
  "parser_run out = \<lparr>events = compact_events (calls out) None [], thrown = None\<rparr>"

text \<open>\<^verbatim>\<open>Parse(Stringify(v, replacer), reviver)\<close> on a compact document.\<close>

definition roundtrip ::
  "'n host \<Rightarrow> nat \<Rightarrow> 'n value \<Rightarrow> 'n replacer_arg \<Rightarrow> 'n transform option \<Rightarrow> 'n value res" where
  "roundtrip h fuel v replacer reviver =
     (case Stringify h fuel v replacer NoSpace of
        None \<Rightarrow> None
      | Some (Inl e) \<Rightarrow> Raise e
      | Some (Inr out) \<Rightarrow> Parse h (parser_run out) reviver fuel)"

text \<open>
  A host for concrete runs: a number and a time value are held as their text, so the
  four conversions change nothing.
\<close>

definition text_host :: "string host" where
  "text_host = \<lparr>parseFloat = (\<lambda>t. t), newDate = (\<lambda>t. t), Number_toString = (\<lambda>n. n),
                 toISOString = (\<lambda>d. Some d)\<rparr>"

section \<open>Notions used in the statements and proofs\<close>

text \<open>
  The allow-list replacer of a list of property names, and the values it leaves: every
  array empty, every property name of every object in the set.
\<close>

fun restricted :: "string set \<Rightarrow> 'n value \<Rightarrow> bool" where
  "restricted K (Arr xs) = (xs = [])"
| "restricted K (Obj ps) = (\<forall>p \<in> set ps. fst p \<in> K \<and> restricted K (snd p))"
| "restricted K v = True"

definition allow :: "string list \<Rightarrow> 'n transform" where
  "allow ks = normalize_replacer (ReplacerKeys (map KStr ks))"

text \<open>
  The events of a run without the error reports, and the error reports alone; a result
  with the console replaced; and the objects \<^verbatim>\<open>obj\<close> can be: without a property
  \<^verbatim>\<open>__proto__\<close> of their own.
\<close>

definition drop_errors :: "sax_event list \<Rightarrow> sax_event list" where
  "drop_errors evs = filter (\<lambda>ev. case ev of ErrorEvent e \<Rightarrow> False | _ \<Rightarrow> True) evs"

definition reported :: "sax_event list \<Rightarrow> string list" where
  "reported evs = concat (map (\<lambda>ev. case ev of ErrorEvent e \<Rightarrow> [e] | _ \<Rightarrow> []) evs)"

definition set_console :: "string list \<Rightarrow> error + 'n parse_state \<Rightarrow> error + 'n parse_state" where
  "set_console c r = (case r of Inl e \<Rightarrow> Inl e | Inr st \<Rightarrow> Inr (st\<lparr>console := c\<rparr>))"

definition plain_object :: "'n value \<Rightarrow> bool" where
  "plain_object ob = (case ob of Obj ps \<Rightarrow> map_of ps ''__proto__'' = None | _ \<Rightarrow> False)"

text \<open>
  A value that holds a function at some position, and a value whose objects have no
  property name twice.
\<close>

fun has_function :: "'n value \<Rightarrow> bool" where
  "has_function Fun = True"
| "has_function (Arr xs) = (\<exists>x \<in> set xs. has_function x)"
| "has_function (Obj ps) = (\<exists>p \<in> set ps. has_function (snd p))"
| "has_function v = False"

fun distinct_keys :: "'n value \<Rightarrow> bool" where
  "distinct_keys (Arr xs) = (\<forall>x \<in> set xs. distinct_keys x)"
| "distinct_keys (Obj ps) = (distinct (map fst ps) \<and> (\<forall>p \<in> set ps. distinct_keys (snd p)))"
| "distinct_keys v = True"

text \<open>
  On a list of writer calls: every start of an element is followed at once by its
  \<^verbatim>\<open>name\<close> attribute; the \<^verbatim>\<open>name\<close> attributes of the elements at nesting depth 0,
  in order (the first argument is the current depth); and the list starts like the
  content of an element, with a text or a child element.
\<close>

fun every_element_named :: "writer_call list \<Rightarrow> bool" where
  "every_element_named [] = True"
| "every_element_named (StartElement t # WriteAttribute k v # cs) =
     (k = ''name'' \<and> every_element_named cs)"
| "every_element_named (StartElement t # cs) = False"
| "every_element_named (c # cs) = every_element_named cs"

fun child_names :: "nat \<Rightarrow> writer_call list \<Rightarrow> string list" where
  "child_names d [] = []"
| "child_names d (StartElement t # cs) = child_names (Suc d) cs"
| "child_names d (EndElement # cs) = child_names (d - 1) cs"
| "child_names d (WriteAttribute k v # cs) =
     (if d = 1 \<and> k = ''name'' then v # child_names d cs else child_names d cs)"
| "child_names d (c # cs) = child_names d cs"

definition starts_content :: "writer_call list \<Rightarrow> bool" where
  "starts_content cs = (case cs of [] \<Rightarrow> True | Text s # _ \<Rightarrow> True | StartElement t # _ \<Rightarrow> True | _ \<Rightarrow> False)"

text \<open>
  A scalar that is written with a text that is not empty, and what the text of a scalar
  is read back as.
\<close>

fun scalar :: "'n host \<Rightarrow> 'n value \<Rightarrow> bool" where
  "scalar h (Bool b) = True"
| "scalar h (Num n) = (Number_toString h n \<noteq> [])"
| "scalar h (Str s) = (s \<noteq> [])"
| "scalar h (Date d) = (case toISOString h d of None \<Rightarrow> False | Some s \<Rightarrow> s \<noteq> [])"
| "scalar h v = False"

fun reread :: "'n host \<Rightarrow> 'n value \<Rightarrow> 'n value" where
  "reread h (Num n) = Num (parseFloat h (Number_toString h n))"
| "reread h (Date d) = Date (newDate h (the (toISOString h d)))"
| "reread h v = v"

text \<open>
  What one entry contributes to the result of a walk: the image, under the recursive
  call, of what the transform returns for it, and nothing when the transform returns
  \<^verbatim>\<open>undefined\<close>; for a property, that image under the property's name. And the
  values held inside a value, at any depth.
\<close>

definition kept_entry ::
  "'n transform \<Rightarrow> ('n value \<Rightarrow> 'n value res) \<Rightarrow> key \<Rightarrow> 'n value \<Rightarrow> 'n value option" where
  "kept_entry r rec k x =
     (case r k x of
        Inl e \<Rightarrow> None
      | Inr y \<Rightarrow> if y = Undefined then None
                 else (case rec y of Some (Inr c) \<Rightarrow> Some c | _ \<Rightarrow> None))"

definition kept_prop ::
  "'n transform \<Rightarrow> ('n value \<Rightarrow> 'n value res) \<Rightarrow> string \<times> 'n value \<Rightarrow> (string \<times> 'n value) option" where
  "kept_prop r rec p = map_option (Pair (fst p)) (kept_entry r rec (KStr (fst p)) (snd p))"

fun inside :: "'n value \<Rightarrow> 'n value set" where
  "inside (Arr xs) = (\<Union>x \<in> set xs. insert x (inside x))"
| "inside (Obj ps) = (\<Union>p \<in> set ps. insert (snd p) (inside (snd p)))"
| "inside v = {}"

section \<open>Evaluating a concrete run\<close>

lemmas run_defs =
  roundtrip_def Stringify_def Parse_def parser_run_def map_res_def append_calls_def
  flush_tag_def initial_def note_root_def onopentag_def ontext_def onclosetag_def onerror_def descend_def
  assign_def new_node_def text_value_def read_root_def root_name_def obj_set_def arr_set_def
  array_index_def digit_val_def inherited_names_def tag.extend_def text_host_def show_nat.simps
  digit_char_def eval_nat_numeral

lemmas step_defs =
  roundtrip_def Stringify_def Parse_def parser_run_def map_res_def append_calls_def
  flush_tag_def initial_def note_root_def onopentag_def ontext_def onclosetag_def onerror_def
  descend_def assign_def new_node_def read_root_def root_name_def obj_set_def arr_set_def
  array_index_def digit_val_def inherited_names_def tag.extend_def show_nat.simps
  digit_char_def eval_nat_numeral

section \<open>Properties of the walk and of clone\<close>

lemma size_elem: "x \<in> set xs \<Longrightarrow> size x < size (Arr xs)"
  by (induction xs) auto

lemma size_prop: "p \<in> set ps \<Longrightarrow> size (snd p) < size (Obj ps)"
  by (induction ps) auto

lemma set_replace_prop: "set (replace_prop k v ps) \<subseteq> insert (k, v) (set ps)"
  by (induction ps) auto

lemma set_insert_index: "set (insert_index i k v ps) = insert (k, v) (set ps)"
  by (induction ps) (auto split: option.splits)

lemma set_obj_set: "set (obj_set k v ps) \<subseteq> insert (k, v) (set ps)"
  using set_replace_prop[of k v ps] by (auto simp: obj_set_def set_insert_index split: option.splits)

lemma map_of_replace_prop:
  "map_of ps k \<noteq> None \<Longrightarrow> map_of (replace_prop k v ps) = (map_of ps)(k \<mapsto> v)"
  by (induction ps) (auto simp: fun_eq_iff)

lemma map_of_insert_index:
  "map_of ps k = None \<Longrightarrow> map_of (insert_index i k v ps) = (map_of ps)(k \<mapsto> v)"
  by (induction ps) (auto simp: fun_eq_iff split: option.splits)

lemma map_of_obj_set: "map_of (obj_set k v ps) = (map_of ps)(k \<mapsto> v)"
  by (auto simp: obj_set_def map_of_replace_prop map_of_insert_index fun_eq_iff map_add_def
      split: option.splits)

lemma walk_array_cong_on:
  "(\<forall>n x. x \<in> set xs \<longrightarrow> f (KNum n) x = g (KNum n) x) \<Longrightarrow>
   (\<forall>n x y. x \<in> set xs \<longrightarrow> g (KNum n) x = Inr y \<longrightarrow> rec y = rec' y) \<Longrightarrow>
   walk_array f rec n xs acc = walk_array g rec' n xs acc"
proof (induction xs arbitrary: n acc)
  case Nil
  then show ?case by simp
next
  case (Cons x xs)
  have fg: "f (KNum n) x = g (KNum n) x" using Cons.prems(1) by simp
  have tl: "\<And>m a. walk_array f rec m xs a = walk_array g rec' m xs a"
    using Cons.prems by (intro Cons.IH) auto
  show ?case
  proof (cases "g (KNum n) x")
    case (Inl e)
    then show ?thesis using fg by simp
  next
    case (Inr y)
    then have "rec y = rec' y" using Cons.prems(2)[rule_format, of x n y] by simp
    then show ?thesis using fg Inr tl by (simp split: option.splits sum.splits)
  qed
qed

lemma walk_object_cong_on:
  "(\<forall>p. p \<in> set ps \<longrightarrow> f (KStr (fst p)) (snd p) = g (KStr (fst p)) (snd p)) \<Longrightarrow>
   (\<forall>p y. p \<in> set ps \<longrightarrow> g (KStr (fst p)) (snd p) = Inr y \<longrightarrow> rec y = rec' y) \<Longrightarrow>
   walk_object f rec ps acc = walk_object g rec' ps acc"
proof (induction ps arbitrary: acc)
  case Nil
  then show ?case by simp
next
  case (Cons p ps)
  have fg: "f (KStr (fst p)) (snd p) = g (KStr (fst p)) (snd p)"
    using Cons.prems(1)[rule_format, of p] by simp
  have tl: "\<And>a. walk_object f rec ps a = walk_object g rec' ps a"
    using Cons.prems by (intro Cons.IH) auto
  show ?case
  proof (cases "g (KStr (fst p)) (snd p)")
    case (Inl e)
    then show ?thesis using fg by simp
  next
    case (Inr y)
    then have "rec y = rec' y" using Cons.prems(2)[rule_format, of p y] by simp
    then show ?thesis using fg Inr tl by (simp split: option.splits sum.splits)
  qed
qed

lemma clone_ignores_root:
  assumes small: "\<And>k x y. r k x = Inr y \<Longrightarrow> size y \<le> size x"
    and agree: "\<And>k x. x \<noteq> v \<Longrightarrow> r' k x = r k x"
  shows "size w \<le> size v \<Longrightarrow> clone fuel r' w = clone fuel r w"
proof (induction fuel arbitrary: w)
  case 0
  then show ?case by simp
next
  case (Suc fuel)
  have entry: "r' k x = r k x \<and> (\<forall>y. r k x = Inr y \<longrightarrow> clone fuel r' y = clone fuel r y)"
    if "size x < size w" for k x
  proof -
    have "x \<noteq> v" using that Suc.prems by auto
    moreover have "clone fuel r' y = clone fuel r y" if "r k x = Inr y" for y
    proof (rule Suc.IH)
      show "size y \<le> size v" using small[OF that] \<open>size x < size w\<close> Suc.prems by simp
    qed
    ultimately show ?thesis using agree by simp
  qed
  show ?case
  proof (cases w)
    case (Arr xs)
    have "walk_array r' (clone fuel r') 0 xs [] = walk_array r (clone fuel r) 0 xs []"
      by (rule walk_array_cong_on) (use entry size_elem Arr in blast)+
    then show ?thesis using Arr by simp
  next
    case (Obj ps)
    have "walk_object r' (clone fuel r') ps [] = walk_object r (clone fuel r) ps []"
      by (rule walk_object_cong_on) (use entry size_prop Obj in blast)+
    then show ?thesis using Obj by simp
  qed simp_all
qed

lemma clone_tag: "clone fuel r v = Ret c \<Longrightarrow> getTagname c = getTagname v"
  by (cases fuel; cases v) (auto simp: map_res_def split: option.splits sum.splits)

lemma walk_array_drop_all: "walk_array (\<lambda>k x. Inr Undefined) rec n xs acc = Ret acc"
  by (induction xs arbitrary: n) auto

lemma walk_object_drop_all: "walk_object (\<lambda>k x. Inr Undefined) rec ps acc = Ret acc"
  by (induction ps) auto

lemma clone_drop_all:
  "clone (Suc fuel) (\<lambda>k x. Inr Undefined) v =
     Ret (case v of Arr xs \<Rightarrow> Arr [] | Obj ps \<Rightarrow> Obj [] | Null \<Rightarrow> Obj [] | _ \<Rightarrow> v)"
  by (cases v) (auto simp: map_res_def walk_array_drop_all walk_object_drop_all)

lemma walk_array_image:
  "walk_array r rec n xs acc = Ret ys \<Longrightarrow>
   ys = acc @ List.map_filter (\<lambda>(i, x). kept_entry r rec (KNum i) x) (zip [n..<n + length xs] xs)"
proof (induction xs arbitrary: n acc)
  case Nil
  then show ?case by (simp add: List.map_filter_simps)
next
  case (Cons x xs)
  have z: "zip [n..<n + length (x # xs)] (x # xs) = (n, x) # zip [Suc n..<Suc n + length xs] xs"
    by (simp add: upt_conv_Cons del: upt_Suc)
  from Cons.prems obtain y where y: "r (KNum n) x = Inr y"
    by (cases "r (KNum n) x") auto
  show ?case
  proof (cases "y = Undefined")
    case True
    then have "walk_array r rec (Suc n) xs acc = Ret ys" using Cons.prems y by simp
    from Cons.IH[OF this] show ?thesis
      using y True unfolding z by (simp add: List.map_filter_simps kept_entry_def)
  next
    case False
    then obtain c where c: "rec y = Ret c"
      and w: "walk_array r rec (Suc n) xs (acc @ [c]) = Ret ys"
      using Cons.prems y by (auto split: option.splits sum.splits)
    from Cons.IH[OF w] show ?thesis
      using y False c unfolding z by (simp add: List.map_filter_simps kept_entry_def)
  qed
qed

lemma walk_object_image:
  "walk_object r rec ps acc = Ret qs \<Longrightarrow> distinct (map fst ps) \<Longrightarrow>
   map_of qs k =
     (case map_of ps k of
        None \<Rightarrow> map_of acc k
      | Some x \<Rightarrow> (case kept_entry r rec (KStr k) x of None \<Rightarrow> map_of acc k | Some c \<Rightarrow> Some c))"
proof (induction ps arbitrary: acc)
  case Nil
  then show ?case by simp
next
  case (Cons p ps)
  have d: "distinct (map fst ps)" and fresh: "map_of ps (fst p) = None"
    using Cons.prems(2) by (auto simp: map_of_eq_None_iff)
  from Cons.prems(1) obtain y where y: "r (KStr (fst p)) (snd p) = Inr y"
    by (cases "r (KStr (fst p)) (snd p)") auto
  show ?case
  proof (cases "y = Undefined")
    case True
    then have w: "walk_object r rec ps acc = Ret qs" using Cons.prems(1) y by simp
    show ?thesis
      using Cons.IH[OF w d] y True fresh
      by (cases "k = fst p") (simp_all add: kept_entry_def split: option.splits)
  next
    case False
    then obtain c where c: "rec y = Ret c"
      and w: "walk_object r rec ps (obj_set (fst p) c acc) = Ret qs"
      using Cons.prems(1) y by (auto split: option.splits sum.splits)
    show ?thesis
      using Cons.IH[OF w d] y False c fresh
      by (cases "k = fst p") (simp_all add: kept_entry_def map_of_obj_set split: option.splits)
  qed
qed

lemma inside_smaller: "x \<in> inside w \<Longrightarrow> size x < size w"
proof (induction w arbitrary: x)
  case (Arr xs)
  then obtain y where y: "y \<in> set xs" "x = y \<or> x \<in> inside y" by auto
  then have "size x \<le> size y" using Arr.IH[of y x] by auto
  then show ?case using size_elem[OF y(1)] by simp
next
  case (Obj ps)
  then obtain p where p: "p \<in> set ps" "x = snd p \<or> x \<in> inside (snd p)" by auto
  have "size x \<le> size (snd p)"
  proof (cases "x = snd p")
    case False
    then have "x \<in> inside (snd p)" using p(2) by simp
    moreover have "snd p \<in> Basic_BNFs.snds p" by (cases p) simp
    ultimately show ?thesis using Obj.IH[OF p(1), of "snd p" x] by simp
  qed simp
  then show ?case using size_prop[OF p(1)] by simp
qed simp_all

lemma not_inside_itself: "v \<notin> inside v"
  using inside_smaller[of v v] by auto

lemma clone_ignores_absent:
  assumes clean: "\<And>k x y. x \<noteq> v \<Longrightarrow> v \<notin> inside x \<Longrightarrow> r k x = Inr y \<Longrightarrow> v \<notin> inside y"
    and agree: "\<And>k x. x \<noteq> v \<Longrightarrow> r' k x = r k x"
  shows "v \<notin> inside w \<Longrightarrow> clone fuel r' w = clone fuel r w"
proof (induction fuel arbitrary: w)
  case 0
  then show ?case by simp
next
  case (Suc fuel)
  have entry: "r' k x = r k x \<and> (\<forall>y. r k x = Inr y \<longrightarrow> clone fuel r' y = clone fuel r y)"
    if "x \<in> inside w" "inside x \<subseteq> inside w" for k x
  proof -
    have x: "x \<noteq> v" "v \<notin> inside x" using that Suc.prems by auto
    have "clone fuel r' y = clone fuel r y" if "r k x = Inr y" for y
      using clean[OF x that] by (rule Suc.IH)
    then show ?thesis using agree x(1) by simp
  qed
  show ?case
  proof (cases w)
    case (Arr xs)
    have mem: "x \<in> inside w \<and> inside x \<subseteq> inside w" if "x \<in> set xs" for x
      using that Arr by auto
    have "walk_array r' (clone fuel r') 0 xs [] = walk_array r (clone fuel r) 0 xs []"
    proof (rule walk_array_cong_on)
      show "\<forall>n x. x \<in> set xs \<longrightarrow> r' (KNum n) x = r (KNum n) x"
        using entry mem by blast
      show "\<forall>n x y. x \<in> set xs \<longrightarrow> r (KNum n) x = Inr y \<longrightarrow> clone fuel r' y = clone fuel r y"
        using entry mem by blast
    qed
    then show ?thesis using Arr by simp
  next
    case (Obj ps)
    have mem: "snd p \<in> inside w \<and> inside (snd p) \<subseteq> inside w" if "p \<in> set ps" for p
      using that Obj by auto
    have "walk_object r' (clone fuel r') ps [] = walk_object r (clone fuel r) ps []"
    proof (rule walk_object_cong_on)
      show "\<forall>p. p \<in> set ps \<longrightarrow> r' (KStr (fst p)) (snd p) = r (KStr (fst p)) (snd p)"
        using entry mem by blast
      show "\<forall>p y. p \<in> set ps \<longrightarrow> r (KStr (fst p)) (snd p) = Inr y \<longrightarrow>
              clone fuel r' y = clone fuel r y"
        using entry mem by blast
    qed
    then show ?thesis using Obj by simp
  qed simp_all
qed

lemma distinct_replace_prop:
  "distinct (map fst ps) \<Longrightarrow> distinct (map fst (replace_prop k v ps))"
proof (induction ps)
  case (Cons p ps)
  have "fst ` set (replace_prop k v ps) \<subseteq> insert k (fst ` set ps)"
    using set_replace_prop[of k v ps] by auto
  then show ?case using Cons by (cases "fst p = k") auto
qed simp

lemma distinct_insert_index:
  "distinct (map fst ps) \<Longrightarrow> k \<notin> fst ` set ps \<Longrightarrow> distinct (map fst (insert_index i k v ps))"
proof (induction ps)
  case (Cons p ps)
  then show ?case by (auto simp: set_insert_index split: option.splits)
qed simp

lemma distinct_obj_set:
  "distinct (map fst ps) \<Longrightarrow> distinct (map fst (obj_set k v ps))"
  unfolding obj_set_def
  by (auto simp: distinct_replace_prop distinct_insert_index map_of_eq_None_iff split: option.splits)

lemma walk_object_fold:
  "walk_object r rec ps acc = Ret qs \<Longrightarrow>
   qs = foldl (\<lambda>a p. obj_set (fst p) (snd p) a) acc (List.map_filter (kept_prop r rec) ps)"
proof (induction ps arbitrary: acc)
  case Nil
  then show ?case by (simp add: List.map_filter_simps)
next
  case (Cons p ps)
  from Cons.prems(1) obtain y where y: "r (KStr (fst p)) (snd p) = Inr y"
    by (cases "r (KStr (fst p)) (snd p)") auto
  show ?case
  proof (cases "y = Undefined")
    case True
    then have w: "walk_object r rec ps acc = Ret qs" using Cons.prems(1) y by simp
    show ?thesis
      using Cons.IH[OF w] y True
      by (simp add: List.map_filter_simps kept_prop_def kept_entry_def)
  next
    case False
    then obtain c where c: "rec y = Ret c"
      and w: "walk_object r rec ps (obj_set (fst p) c acc) = Ret qs"
      using Cons.prems(1) y by (auto split: option.splits sum.splits)
    show ?thesis
      using Cons.IH[OF w] y False c
      by (simp add: List.map_filter_simps kept_prop_def kept_entry_def)
  qed
qed

lemma distinct_foldl_obj_set:
  "distinct (map fst acc) \<Longrightarrow>
   distinct (map fst (foldl (\<lambda>a p. obj_set (fst p) (snd p) a) acc ps))"
  by (induction ps arbitrary: acc) (simp_all add: distinct_obj_set)

lemma walk_object_distinct:
  "walk_object r rec ps acc = Ret qs \<Longrightarrow> distinct (map fst acc) \<Longrightarrow> distinct (map fst qs)"
  using walk_object_fold[of r rec ps acc qs] distinct_foldl_obj_set[of acc] by simp

lemma Stringify_fun_root:
  "Stringify h fuel v (ReplacerFun r) NoSpace = Ret out \<Longrightarrow>
   \<exists>c body. clone fuel r v = Ret c \<and> stringifyValue h c = Inr body \<and>
     calls out = [StartDocument ''1.0'' ''UTF-8'' True, StartElement (getTagname v)] @ body @
                 [EndElement, EndDocument]"
  by (auto simp: Stringify_def clone_tag split: option.splits sum.splits)


section \<open>Round trip\<close>

text \<open>
  Claim C1. The spec says that \<^verbatim>\<open>parse(stringify(v))\<close> is structurally equal to \<open>v\<close>
  for every value tree without functions and cycles. The code does not do that: an
  empty array and an empty object come back as \<^verbatim>\<open>null\<close>, an empty string comes back
  as \<^verbatim>\<open>undefined\<close> (as a property it is missing from the result), and an object whose
  null-valued property is followed by another property makes \<^verbatim>\<open>Parse\<close> throw a
  TypeError. This holds for every host: no number or date is involved.
\<close>

theorem roundtrip_loses_empty_values:
  "roundtrip h 5 (Arr []) NoReplacer None = Ret Null \<and>
   roundtrip h 5 (Obj []) NoReplacer None = Ret Null \<and>
   roundtrip h 5 (Str []) NoReplacer None = Ret Undefined \<and>
   roundtrip h 5 (Obj [(''a'', Str [])]) NoReplacer None = Ret (Obj []) \<and>
   roundtrip h 5 (Obj [(''a'', Null), (''b'', Bool True)]) NoReplacer None = Raise TypeError"
  by (simp add: run_defs)

section \<open>Indentation\<close>

text \<open>
  Claim C3. The spec (and the comment above \<^verbatim>\<open>Stringify\<close>) says that a numeric space
  is clamped to 0..10, so that 25 gives the output of 10 and -1 the output of 0, and
  that a string is cut to its first 10 characters. The code does none of it: -1 makes
  \<^verbatim>\<open>' '.repeat(space)\<close> throw a RangeError whatever the value and the replacer, while 0
  returns; 25 hands 25 spaces to the writer, not 10; a string of 12 characters is handed
  over whole.
\<close>

theorem space_is_not_clamped:
  "Stringify h fuel v replacer (SpaceNum (- 1)) = Raise RangeError \<and>
   Stringify h 1 Null NoReplacer (SpaceNum 0) =
     Ret \<lparr>indent = Some [],
          calls = [StartDocument ''1.0'' ''UTF-8'' True, StartElement ''object'', EndElement,
                   EndDocument]\<rparr> \<and>
   normalize_space (SpaceNum 25) = Inr (Some (replicate 25 CHR '' '')) \<and>
   normalize_space (SpaceNum 10) = Inr (Some (replicate 10 CHR '' '')) \<and>
   Stringify h 2 (Arr [Null]) NoReplacer (SpaceNum 25) \<noteq>
     Stringify h 2 (Arr [Null]) NoReplacer (SpaceNum 10) \<and>
   normalize_space (SpaceStr ''abcdefghijkl'') = Inr (Some ''abcdefghijkl'')"
  by (simp add: run_defs)

section \<open>Arrays\<close>

text \<open>
  Claim C7. The spec says that an array \<open>[a, b, c]\<close> of supported values comes back in
  order, and that a reviver dropping index 1 gives the compacted \<open>[a, c]\<close>. The code
  does so for scalars with a text, but not for every supported value: with \<open>a\<close> null
  \<^verbatim>\<open>Parse\<close> throws a TypeError, with and without the reviver; with \<open>a\<close> the empty
  string the result has a hole at index 0; with \<open>c\<close> an empty array the result holds
  null in its place, and an empty object once the reviver pass has run.
\<close>

theorem array_of_three_not_preserved:
  "roundtrip h 5 (Arr [Null, Bool True, Bool False]) NoReplacer None = Raise TypeError \<and>
   roundtrip h 5 (Arr [Null, Bool True, Bool False]) NoReplacer
     (Some (\<lambda>k v. if k = KNum 1 then Inr Undefined else Inr v)) = Raise TypeError \<and>
   roundtrip h 5 (Arr [Str [], Bool True, Bool False]) NoReplacer None =
     Ret (Arr [Undefined, Bool True, Bool False]) \<and>
   roundtrip h 5 (Arr [Bool True, Bool False, Arr []]) NoReplacer None =
     Ret (Arr [Bool True, Bool False, Null]) \<and>
   roundtrip h 5 (Arr [Bool True, Bool False, Arr []]) NoReplacer
     (Some (\<lambda>k v. if k = KNum 1 then Inr Undefined else Inr v)) =
     Ret (Arr [Bool True, Obj []])"
  by (simp add: run_defs)

section \<open>Null\<close>

text \<open>
  Claim C8. The spec says that \<^verbatim>\<open>stringify\<close> renders null as an element without text
  and children, and that \<^verbatim>\<open>parse\<close> maps every self-closing element to null stored
  under its name in the current container. The first half holds: the calls for a null
  entry are the start, the attribute and the end of an element, which the parser
  reports as a self-closing element, and a single one is read back as null. The second
  half fails:
  closing a self-closing element sets \<^verbatim>\<open>current\<close> to the \<^verbatim>\<open>parentObject\<close> that was never
  assigned, so the next self-closing element of the same container is not stored, and
  \<^verbatim>\<open>Parse\<close> throws a TypeError. The document is the one \<^verbatim>\<open>stringify\<close> makes of
  \<^verbatim>\<open>{a: null, b: null}\<close>.
\<close>

theorem second_self_closing_element_raises:
  "Stringify h 2 (Obj [(''a'', Null)]) NoReplacer NoSpace =
     Ret \<lparr>indent = None,
          calls = [StartDocument ''1.0'' ''UTF-8'' True, StartElement ''object'',
                   StartElement ''object'', WriteAttribute ''name'' ''a'', EndElement,
                   EndElement, EndDocument]\<rparr> \<and>
   compact_events
     [StartDocument ''1.0'' ''UTF-8'' True, StartElement ''object'',
      StartElement ''object'', WriteAttribute ''name'' ''a'', EndElement,
      EndElement, EndDocument] None [] =
     [OpenTag \<lparr>tag_name = ''object'', attr_name = None, isSelfClosing = False\<rparr>,
      OpenTag \<lparr>tag_name = ''object'', attr_name = Some ''a'', isSelfClosing = True\<rparr>,
      CloseTag ''object'', CloseTag ''object''] \<and>
   Parse h
     \<lparr>events =
        [OpenTag \<lparr>tag_name = ''object'', attr_name = None, isSelfClosing = False\<rparr>,
         OpenTag \<lparr>tag_name = ''object'', attr_name = Some ''a'', isSelfClosing = True\<rparr>,
         CloseTag ''object'', CloseTag ''object''],
      thrown = None\<rparr> None 0 = Ret (Obj [(''a'', Null)]) \<and>
   parser_write h
     [OpenTag \<lparr>tag_name = ''object'', attr_name = None, isSelfClosing = False\<rparr>,
      OpenTag \<lparr>tag_name = ''object'', attr_name = Some ''a'', isSelfClosing = True\<rparr>,
      CloseTag ''object''] initial =
     Inr \<lparr>path = [new_node \<lparr>tag_name = ''object'', attr_name = None, isSelfClosing = False\<rparr>
                       ObjectType (Some [])],
          obj = Obj [(''undefined'', Obj [(''a'', Null)])],
          current = None, rootNode = RootUndefined, console = []\<rparr> \<and>
   Parse h
     \<lparr>events =
        [OpenTag \<lparr>tag_name = ''object'', attr_name = None, isSelfClosing = False\<rparr>,
         OpenTag \<lparr>tag_name = ''object'', attr_name = Some ''a'', isSelfClosing = True\<rparr>,
         CloseTag ''object'',
         OpenTag \<lparr>tag_name = ''object'', attr_name = Some ''b'', isSelfClosing = True\<rparr>,
         CloseTag ''object'',
         CloseTag ''object''],
      thrown = None\<rparr> None 0 = Raise TypeError \<and>
   roundtrip h 5 (Obj [(''a'', Null), (''b'', Null)]) NoReplacer None = Raise TypeError"
  by (simp add: run_defs)

section \<open>The replacer and the root\<close>

text \<open>
  Claim C10, as the code has it. Line 191 passes the root value to \<^verbatim>\<open>clone\<close>, which
  calls the replacer inside its two loops only, on the entries of the value it is
  given. For every replacer: the clone of the root has the root's own tag; a root that
  is neither an array nor an object is cloned without the replacer (to itself, and null
  to the empty object); the clone of an array root is the array of what its entries
  contribute, in order; the clone of an object root is built by assigning, in order,
  what its properties contribute, so that (property names being distinct) it has
  distinct names and holds under each name what the property of that name contributes;
  whenever \<^verbatim>\<open>stringify\<close> returns, the document is the root element, named by the tag
  of the root value, around the encoding of that clone. When the replacer returns
  \<^verbatim>\<open>undefined\<close> for every entry, the root is still cloned (emptied, if it is a
  container) and still encoded as the root element. The replacer is given the root
  value as its second argument only if it brought the root into a value it returned:
  the clone of \<open>v\<close> does not depend on what the replacer would do when given \<open>v\<close>
  itself, for every replacer that returns no value holding \<open>v\<close> inside for an argument
  that does not, and for every replacer that returns nothing larger than what it is
  given.
\<close>

theorem replacer_applied_to_entries_only:
  "(clone fuel r v = Ret c \<longrightarrow> getTagname c = getTagname v) \<and>
   ((\<forall>xs. v \<noteq> Arr xs) \<and> (\<forall>ps. v \<noteq> Obj ps) \<and> v \<noteq> Null \<longrightarrow> clone (Suc fuel) r v = Ret v) \<and>
   clone (Suc fuel) r Null = Ret (Obj []) \<and>
   (clone (Suc fuel) r (Arr xs) = Ret c \<longrightarrow>
      c = Arr (List.map_filter (\<lambda>(i, x). kept_entry r (clone fuel r) (KNum i) x)
                 (zip [0..<length xs] xs))) \<and>
   (clone (Suc fuel) r (Obj ps) = Ret c \<longrightarrow>
      c = Obj (foldl (\<lambda>a p. obj_set (fst p) (snd p) a) []
                 (List.map_filter (kept_prop r (clone fuel r)) ps))) \<and>
   (clone (Suc fuel) r (Obj ps) = Ret c \<longrightarrow> distinct (map fst ps) \<longrightarrow>
      (\<exists>qs. c = Obj qs \<and> distinct (map fst qs) \<and>
        (\<forall>k. map_of qs k =
               (case map_of ps k of
                  None \<Rightarrow> None
                | Some x \<Rightarrow> kept_entry r (clone fuel r) (KStr k) x)))) \<and>
   (Stringify h fuel v (ReplacerFun r) NoSpace = Ret out \<longrightarrow>
      (\<exists>c body. clone fuel r v = Ret c \<and> stringifyValue h c = Inr body \<and>
         calls out = [StartDocument ''1.0'' ''UTF-8'' True, StartElement (getTagname v)] @ body @
                     [EndElement, EndDocument])) \<and>
   clone (Suc fuel) (\<lambda>k x. Inr Undefined) v =
     Ret (case v of Arr xs \<Rightarrow> Arr [] | Obj ps \<Rightarrow> Obj [] | Null \<Rightarrow> Obj [] | _ \<Rightarrow> v) \<and>
   Stringify h (Suc fuel) (Arr xs) (ReplacerFun (\<lambda>k x. Inr Undefined)) NoSpace =
     Ret \<lparr>indent = None,
          calls = [StartDocument ''1.0'' ''UTF-8'' True, StartElement ''array'', EndElement,
                   EndDocument]\<rparr> \<and>
   Stringify h (Suc fuel) (Obj ps) (ReplacerFun (\<lambda>k x. Inr Undefined)) NoSpace =
     Ret \<lparr>indent = None,
          calls = [StartDocument ''1.0'' ''UTF-8'' True, StartElement ''object'', EndElement,
                   EndDocument]\<rparr> \<and>
   ((\<forall>k x y. x \<noteq> v \<longrightarrow> v \<notin> inside x \<longrightarrow> r k x = Inr y \<longrightarrow> v \<notin> inside y) \<longrightarrow>
      (\<forall>k x. x \<noteq> v \<longrightarrow> r' k x = r k x) \<longrightarrow> clone fuel r' v = clone fuel r v) \<and>
   ((\<forall>k x y. r k x = Inr y \<longrightarrow> size y \<le> size x) \<longrightarrow> (\<forall>k x. x \<noteq> v \<longrightarrow> r' k x = r k x) \<longrightarrow>
      clone fuel r' v = clone fuel r v)"
proof (intro conjI impI)
  show "clone fuel r v = Ret c \<Longrightarrow> getTagname c = getTagname v" by (rule clone_tag)
  show "clone (Suc fuel) r v = Ret v"
    if "(\<forall>xs. v \<noteq> Arr xs) \<and> (\<forall>ps. v \<noteq> Obj ps) \<and> v \<noteq> Null"
    using that by (cases v) simp_all
  show "clone (Suc fuel) r Null = Ret (Obj [])" by simp
  show "c = Arr (List.map_filter (\<lambda>(i, x). kept_entry r (clone fuel r) (KNum i) x)
                 (zip [0..<length xs] xs))"
    if "clone (Suc fuel) r (Arr xs) = Ret c"
  proof -
    from that obtain ys where ys: "walk_array r (clone fuel r) 0 xs [] = Ret ys" and c: "c = Arr ys"
      by (auto simp: map_res_def split: option.splits sum.splits)
    show ?thesis using walk_array_image[OF ys] c by simp
  qed
  show "c = Obj (foldl (\<lambda>a p. obj_set (fst p) (snd p) a) []
                 (List.map_filter (kept_prop r (clone fuel r)) ps))"
    if "clone (Suc fuel) r (Obj ps) = Ret c"
  proof -
    from that obtain qs where qs: "walk_object r (clone fuel r) ps [] = Ret qs"
      and c: "c = Obj qs"
      by (auto simp: map_res_def split: option.splits sum.splits)
    show ?thesis using walk_object_fold[OF qs] c by simp
  qed
  show "\<exists>qs. c = Obj qs \<and> distinct (map fst qs) \<and>
        (\<forall>k. map_of qs k =
               (case map_of ps k of
                  None \<Rightarrow> None
                | Some x \<Rightarrow> kept_entry r (clone fuel r) (KStr k) x))"
    if "clone (Suc fuel) r (Obj ps) = Ret c" and d: "distinct (map fst ps)"
  proof -
    from that(1) obtain qs where qs: "walk_object r (clone fuel r) ps [] = Ret qs"
      and c: "c = Obj qs"
      by (auto simp: map_res_def split: option.splits sum.splits)
    have "map_of qs k =
               (case map_of ps k of
                  None \<Rightarrow> None
                | Some x \<Rightarrow> kept_entry r (clone fuel r) (KStr k) x)" for k
      using walk_object_image[OF qs d, of k] by (simp split: option.splits)
    moreover have "distinct (map fst qs)" using walk_object_distinct[OF qs] by simp
    ultimately show ?thesis using c by blast
  qed
  show "\<exists>c body. clone fuel r v = Ret c \<and> stringifyValue h c = Inr body \<and>
         calls out = [StartDocument ''1.0'' ''UTF-8'' True, StartElement (getTagname v)] @ body @
                     [EndElement, EndDocument]"
    if "Stringify h fuel v (ReplacerFun r) NoSpace = Ret out"
    using that by (rule Stringify_fun_root)
  show "clone (Suc fuel) (\<lambda>k x. Inr Undefined) v =
     Ret (case v of Arr xs \<Rightarrow> Arr [] | Obj ps \<Rightarrow> Obj [] | Null \<Rightarrow> Obj [] | _ \<Rightarrow> v)"
    by (rule clone_drop_all)
  show "Stringify h (Suc fuel) (Arr xs) (ReplacerFun (\<lambda>k x. Inr Undefined)) NoSpace =
     Ret \<lparr>indent = None,
          calls = [StartDocument ''1.0'' ''UTF-8'' True, StartElement ''array'', EndElement,
                   EndDocument]\<rparr>"
    by (simp add: Stringify_def map_res_def walk_array_drop_all)
  show "Stringify h (Suc fuel) (Obj ps) (ReplacerFun (\<lambda>k x. Inr Undefined)) NoSpace =
     Ret \<lparr>indent = None,
          calls = [StartDocument ''1.0'' ''UTF-8'' True, StartElement ''object'', EndElement,
                   EndDocument]\<rparr>"
    by (simp add: Stringify_def map_res_def walk_object_drop_all)
  show "clone fuel r' v = clone fuel r v"
    if "\<forall>k x y. x \<noteq> v \<longrightarrow> v \<notin> inside x \<longrightarrow> r k x = Inr y \<longrightarrow> v \<notin> inside y"
      and "\<forall>k x. x \<noteq> v \<longrightarrow> r' k x = r k x"
    using that clone_ignores_absent[of v r r' v fuel] not_inside_itself[of v] by blast
  show "clone fuel r' v = clone fuel r v"
    if "\<forall>k x y. r k x = Inr y \<longrightarrow> size y \<le> size x" and "\<forall>k x. x \<noteq> v \<longrightarrow> r' k x = r k x"
    using that clone_ignores_root[of r v r' v fuel] by blast
qed

theorem replacer_applied_to_entries_only_witness:
  "clone 2 (\<lambda>k x. if k = KStr ''b'' then Inr Undefined else Inr Null)
     (Obj [(''a'', Bool True), (''b'', Bool False)] :: string value) =
     Ret (Obj [(''a'', Obj [])]) \<and>
   clone 2 (\<lambda>k x. if k = KNum 0 then Inr Undefined else Inr Null)
     (Arr [Bool True, Bool False] :: string value) = Ret (Arr [Obj []]) \<and>
   clone 3 (\<lambda>k x. if x = Arr [Bool True, Null] then Inl (Thrown ''root'')
                    else case x of Bool b \<Rightarrow> Inr (Obj [(''value'', Str ''yes'')]) | _ \<Rightarrow> Inr x)
     (Arr [Bool True, Null :: string value]) =
     Ret (Arr [Obj [(''value'', Str ''yes'')], Obj []]) \<and>
   clone 3 (\<lambda>k x. if x = Arr [Bool True, Null] then Inl (Thrown ''root'') else Inr x)
     (Arr [Bool True, Null :: string value]) = Ret (Arr [Bool True, Obj []]) \<and>
   clone 1 (\<lambda>k x. Inl (Thrown ''called'')) (Str ''s'' :: string value) = Ret (Str ''s'') \<and>
   Stringify text_host 2 (Arr [Bool True, Bool False])
     (ReplacerFun (\<lambda>k x. if k = KNum 0 then Inr Undefined else Inr Null)) NoSpace =
     Ret \<lparr>indent = None,
          calls = [StartDocument ''1.0'' ''UTF-8'' True, StartElement ''array'',
                   StartElement ''object'', WriteAttribute ''name'' ''0'', EndElement, EndElement,
                   EndDocument]\<rparr>"
proof -
  let ?f = "\<lambda>(k :: key) (x :: string value). if k = KStr ''b'' then Inr Undefined else Inr Null"
  let ?g = "\<lambda>(k :: key) (x :: string value). if k = KNum 0 then Inr Undefined else Inr Null"
  let ?v = "Arr [Bool True, Null] :: string value"
  let ?r = "\<lambda>(k :: key) (x :: string value).
              case x of Bool b \<Rightarrow> Inr (Obj [(''value'', Str ''yes'')]) | _ \<Rightarrow> Inr x"
  let ?r' = "\<lambda>(k :: key) (x :: string value).
               if x = ?v then Inl (Thrown ''root'') else ?r k x"
  let ?i = "\<lambda>(k :: key) (x :: string value). Inr x :: error + string value"
  let ?i' = "\<lambda>(k :: key) (x :: string value). if x = ?v then Inl (Thrown ''root'') else ?i k x"
  let ?e = "\<lambda>(k :: key) (x :: string value). Inl (Thrown ''called'') :: error + string value"
  let ?ps = "[(''a'', Bool True), (''b'', Bool False)] :: (string \<times> string value) list"
  let ?w = "Arr [Bool True, Bool False] :: string value"
  let ?out = "\<lparr>indent = None,
          calls = [StartDocument ''1.0'' ''UTF-8'' True, StartElement ''array'',
                   StartElement ''object'', WriteAttribute ''name'' ''0'', EndElement, EndElement,
                   EndDocument]\<rparr>"
  have obj: "clone 2 ?f (Obj ?ps) = Ret (Obj [(''a'', Obj [])])"
    by (simp add: eval_nat_numeral map_res_def obj_set_def array_index_def digit_val_def)
  have obj': "clone (Suc 1) ?f (Obj ?ps) = Ret (Obj [(''a'', Obj [])])"
    using obj by (simp add: eval_nat_numeral)
  have d: "distinct (map fst ?ps)" by simp
  have fold: "Obj [(''a'', Obj [])] =
          Obj (foldl (\<lambda>a p. obj_set (fst p) (snd p) a) []
                 (List.map_filter (kept_prop ?f (clone 1 ?f)) ?ps))"
    using replacer_applied_to_entries_only
      [where fuel = 1 and r = ?f and ps = ?ps and c = "Obj [(''a'', Obj [])]"]
      obj'
    by blast
  have image: "\<exists>qs. Obj [(''a'', Obj [])] = Obj qs \<and> distinct (map fst qs) \<and>
          (\<forall>k. map_of qs k =
                 (case map_of ?ps k of
                    None \<Rightarrow> None
                  | Some x \<Rightarrow> kept_entry ?f (clone 1 ?f) (KStr k) x))"
    using replacer_applied_to_entries_only
      [where fuel = 1 and r = ?f and ps = ?ps and c = "Obj [(''a'', Obj [])]"]
      obj' d
    by blast
  have arr: "clone 2 ?g (Arr [Bool True, Bool False]) = Ret (Arr [Obj []])"
    by (simp add: eval_nat_numeral map_res_def)
  have "Arr [Obj []] =
          Arr (List.map_filter (\<lambda>(i, x). kept_entry ?g (clone 1 ?g) (KNum i) x)
                 (zip [0..<length [Bool True, Bool False :: string value]] [Bool True, Bool False]))"
    using replacer_applied_to_entries_only
      [where fuel = 1 and r = ?g and xs = "[Bool True, Bool False]" and c = "Arr [Obj []]"]
      arr
    by (simp add: eval_nat_numeral)
  have clean: "\<forall>k x y. x \<noteq> ?v \<longrightarrow> ?v \<notin> inside x \<longrightarrow> ?r k x = Inr y \<longrightarrow> ?v \<notin> inside y"
  proof (intro allI impI)
    fix k x y
    assume "x \<noteq> ?v" and "?v \<notin> inside x" and "?r k x = Inr y"
    then show "?v \<notin> inside y" by (cases x) auto
  qed
  have agree: "\<forall>k x. x \<noteq> ?v \<longrightarrow> ?r' k x = ?r k x" by simp
  have "clone 3 ?r' ?v = clone 3 ?r ?v"
    using replacer_applied_to_entries_only[where fuel = 3 and r = ?r and r' = ?r' and v = ?v]
      clean agree
    by blast
  also have "clone 3 ?r ?v = Ret (Arr [Obj [(''value'', Str ''yes'')], Obj []])"
    by (simp add: eval_nat_numeral map_res_def obj_set_def array_index_def digit_val_def)
  finally have wrap: "clone 3 ?r' ?v = Ret (Arr [Obj [(''value'', Str ''yes'')], Obj []])" .
  have "clone 3 ?i' ?v = clone 3 ?i ?v"
    using replacer_applied_to_entries_only[where fuel = 3 and r = ?i and r' = ?i' and v = ?v]
    by simp
  also have "clone 3 ?i ?v = Ret (Arr [Bool True, Obj []])"
    by (simp add: eval_nat_numeral map_res_def)
  finally have same: "clone 3 ?i' ?v = Ret (Arr [Bool True, Obj []])" .
  have leaf: "clone 1 ?e (Str ''s'') = Ret (Str ''s'')"
    using replacer_applied_to_entries_only[where fuel = 0 and r = ?e and v = "Str ''s''"]
    by simp
  have str: "Stringify text_host 2 ?w (ReplacerFun ?g) NoSpace = Ret ?out"
    by (simp add: Stringify_def eval_nat_numeral map_res_def append_calls_def show_nat.simps
        digit_char_def)
  have "\<exists>c body. clone 2 ?g ?w = Ret c \<and> stringifyValue text_host c = Inr body \<and>
          calls ?out =
          [StartDocument ''1.0'' ''UTF-8'' True, StartElement (getTagname ?w)] @ body @
          [EndElement, EndDocument]"
    using replacer_applied_to_entries_only
      [where fuel = 2 and r = ?g and v = ?w and h = text_host and out = ?out]
      str
    by blast
  show ?thesis using obj arr wrap same leaf str by simp
qed

text \<open>
  Claim C10, as it is stated for every replacer, fails in its last part: \<^verbatim>\<open>clone\<close>
  recurses into what the replacer returns, so a replacer that returns a value holding
  the root is given the root when that value is cloned. The root is \<^verbatim>\<open>[true]\<close>; the
  replacer returns \<^verbatim>\<open>[root]\<close> for \<^verbatim>\<open>true\<close> and throws when it is given the root, and
  \<^verbatim>\<open>stringify\<close> throws that error.
\<close>

theorem replacer_given_the_root_again:
  "\<forall>fuel.
     Stringify text_host (Suc (Suc (Suc fuel))) (Arr [Bool True])
       (ReplacerFun (\<lambda>k x. if x = Arr [Bool True] then Inl (Thrown ''given the root'')
                            else if x = Bool True then Inr (Arr [Arr [Bool True]]) else Inr x))
       NoSpace = Raise (Thrown ''given the root'')"
  by (simp add: Stringify_def map_res_def)


section \<open>The replacer allow-list\<close>

lemma allow_num: "allow ks (KNum n) x = Inr Undefined"
  by (auto simp: allow_def)

lemma allow_str: "allow ks (KStr k) x = (if k \<in> set ks then Inr x else Inr Undefined)"
  by (auto simp: allow_def)

lemma walk_array_allow: "walk_array (allow ks) rec n xs acc = Ret acc"
  by (induction xs arbitrary: n) (auto simp: allow_num)

lemma walk_object_allow_restricted:
  "walk_object (allow ks) rec ps acc = Ret r \<Longrightarrow>
   (\<forall>x c. rec x = Ret c \<longrightarrow> restricted (set ks) c) \<Longrightarrow>
   (\<forall>p \<in> set acc. fst p \<in> set ks \<and> restricted (set ks) (snd p)) \<Longrightarrow>
   (\<forall>p \<in> set r. fst p \<in> set ks \<and> restricted (set ks) (snd p))"
proof (induction ps arbitrary: acc)
  case Nil
  then show ?case by simp
next
  case (Cons p ps)
  show ?case
  proof (cases "fst p \<in> set ks \<and> snd p \<noteq> Undefined")
    case False
    then have "walk_object (allow ks) rec ps acc = Ret r"
      using Cons.prems(1) by (auto simp: allow_str split: if_splits)
    then show ?thesis using Cons.IH Cons.prems(2,3) by blast
  next
    case True
    then obtain c where c: "rec (snd p) = Ret c"
      and w: "walk_object (allow ks) rec ps (obj_set (fst p) c acc) = Ret r"
      using Cons.prems(1) by (auto simp: allow_str split: option.splits sum.splits)
    have "restricted (set ks) c" using c Cons.prems(2) by blast
    then have "\<forall>q \<in> set (obj_set (fst p) c acc). fst q \<in> set ks \<and> restricted (set ks) (snd q)"
      using set_obj_set[of "fst p" c acc] Cons.prems(3) True by auto
    then show ?thesis using Cons.IH[OF w Cons.prems(2)] by blast
  qed
qed

lemma clone_allow_restricted:
  "clone fuel (allow ks) v = Ret c \<Longrightarrow> restricted (set ks) c"
proof (induction fuel arbitrary: v c)
  case 0
  then show ?case by simp
next
  case (Suc fuel)
  show ?case
  proof (cases v)
    case (Arr xs)
    then show ?thesis using Suc.prems by (auto simp: map_res_def walk_array_allow)
  next
    case (Obj ps)
    then obtain r where r: "walk_object (allow ks) (clone fuel (allow ks)) ps [] = Ret r"
      and c: "c = Obj r"
      using Suc.prems by (auto simp: map_res_def split: option.splits sum.splits)
    have "\<forall>p \<in> set r. fst p \<in> set ks \<and> restricted (set ks) (snd p)"
      using walk_object_allow_restricted[OF r] Suc.IH by auto
    then show ?thesis using c by simp
  qed (use Suc.prems in auto)
qed

lemma names_append_calls:
  "append_calls cs r = Inr ds \<Longrightarrow> \<exists>es. r = Inr es \<and> ds = cs @ es"
  by (auto simp: append_calls_def split: sum.splits)

lemma restricted_names:
  shows "restricted K v \<Longrightarrow> stringifyValue h v = Inr cs \<Longrightarrow>
           WriteAttribute ''name'' k \<in> set cs \<Longrightarrow> k \<in> K"
    and "xs = [] \<Longrightarrow> stringify_array h n xs = Inr []"
    and "\<forall>p \<in> set ps. fst p \<in> K \<and> restricted K (snd p) \<Longrightarrow> stringify_object h ps = Inr cs \<Longrightarrow>
           WriteAttribute ''name'' k \<in> set cs \<Longrightarrow> k \<in> K"
proof (induction h v and h n xs and h ps arbitrary: cs and and cs
    rule: stringifyValue_stringify_array_stringify_object.induct)
  case (13 h p ps)
  show ?case
  proof (cases "typeof (snd p) = ''function''")
    case True
    then show ?thesis using 13(1)[OF True] 13(4,5,6) by auto
  next
    case False
    then obtain body rest where body: "stringifyValue h (snd p) = Inr body"
      and rest: "stringify_object h ps = Inr rest"
      and eq: "cs = [StartElement (getTagname (snd p)), WriteAttribute ''name'' (fst p)] @ body @
                [EndElement] @ rest"
      using 13(5) by (auto split: sum.splits dest!: names_append_calls)
    have "WriteAttribute ''name'' k \<in> set body \<Longrightarrow> k \<in> K"
      using 13(2)[OF False _ body] 13(4) by simp
    moreover have "WriteAttribute ''name'' k \<in> set rest \<Longrightarrow> k \<in> K"
      using 13(3)[OF False body _ rest] 13(4) by simp
    ultimately show ?thesis using eq 13(4,6) by auto
  qed
qed (auto split: option.splits)


lemma walk_array_returns:
  "(\<forall>n x. f (KNum n) x = Inr x \<or> f (KNum n) x = Inr Undefined) \<Longrightarrow>
   (\<forall>x \<in> set xs. \<exists>c. rec x = Ret c) \<Longrightarrow> \<exists>r. walk_array f rec n xs acc = Ret r"
proof (induction xs arbitrary: n acc)
  case Nil
  then show ?case by simp
next
  case (Cons x xs)
  have tl: "\<exists>r. walk_array f rec m xs a = Ret r" for m a
    using Cons.prems by (intro Cons.IH) simp_all
  obtain c where c: "rec x = Ret c" using Cons.prems(2) by auto
  show ?case
  proof (cases "f (KNum n) x = Inr Undefined \<or> x = Undefined")
    case True
    then have "f (KNum n) x = Inr Undefined" using Cons.prems(1) by metis
    then show ?thesis using tl[of "Suc n" acc] by simp
  next
    case False
    then have "f (KNum n) x = Inr x" and "x \<noteq> Undefined" using Cons.prems(1) by metis+
    then show ?thesis using tl[of "Suc n" "acc @ [c]"] c by simp
  qed
qed

lemma walk_object_returns:
  "(\<forall>k x. f (KStr k) x = Inr x \<or> f (KStr k) x = Inr Undefined) \<Longrightarrow>
   (\<forall>p \<in> set ps. \<exists>c. rec (snd p) = Ret c) \<Longrightarrow> \<exists>r. walk_object f rec ps acc = Ret r"
proof (induction ps arbitrary: acc)
  case Nil
  then show ?case by simp
next
  case (Cons p ps)
  have tl: "\<exists>r. walk_object f rec ps a = Ret r" for a
    using Cons.prems by (intro Cons.IH) simp_all
  obtain c where c: "rec (snd p) = Ret c" using Cons.prems(2) by auto
  show ?case
  proof (cases "f (KStr (fst p)) (snd p) = Inr Undefined \<or> snd p = Undefined")
    case True
    then have "f (KStr (fst p)) (snd p) = Inr Undefined" using Cons.prems(1) by metis
    then show ?thesis using tl[of acc] by simp
  next
    case False
    then have "f (KStr (fst p)) (snd p) = Inr (snd p)" and "snd p \<noteq> Undefined"
      using Cons.prems(1) by metis+
    then show ?thesis using tl[of "obj_set (fst p) c acc"] c by simp
  qed
qed

lemma clone_filter_returns:
  assumes f: "\<forall>k x. f k x = Inr x \<or> f k x = Inr Undefined"
  shows "size v < fuel \<Longrightarrow> \<exists>c. clone fuel f v = Ret c"
proof (induction fuel arbitrary: v)
  case 0
  then show ?case by simp
next
  case (Suc fuel)
  show ?case
  proof (cases v)
    case (Arr xs)
    have "\<exists>c. clone fuel f x = Ret c" if "x \<in> set xs" for x
    proof (rule Suc.IH)
      show "size x < fuel" using size_elem[OF that] Suc.prems Arr by simp
    qed
    then obtain r where "walk_array f (clone fuel f) 0 xs [] = Ret r"
      using walk_array_returns[of f xs "clone fuel f" 0 "[]"] f by blast
    then show ?thesis using Arr by (simp add: map_res_def)
  next
    case (Obj ps)
    have "\<exists>c. clone fuel f (snd p) = Ret c" if "p \<in> set ps" for p
    proof (rule Suc.IH)
      show "size (snd p) < fuel" using size_prop[OF that] Suc.prems Obj by simp
    qed
    then obtain r where "walk_object f (clone fuel f) ps [] = Ret r"
      using walk_object_returns[of f ps "clone fuel f" "[]"] f by blast
    then show ?thesis using Obj by (simp add: map_res_def)
  qed simp_all
qed

text \<open>
  Claim C9. With an array of property names as replacer, here any list \<open>ks\<close> of
  strings (the claim's is \<^verbatim>\<open>["a", "b"]\<close>), \<^verbatim>\<open>stringify\<close> returns or throws once the
  recursion bound exceeds the size of the value, and every \<^verbatim>\<open>name\<close> attribute written,
  at every nesting level, is one of the listed names: an entry with any other key is
  left out, on a nested object as on the top-level one. (Array elements have numeric
  keys, so none passes the list.)
\<close>

theorem allow_list_only_listed_keys:
  "(size v < fuel \<longrightarrow> Stringify h fuel v (ReplacerKeys (map KStr ks)) space \<noteq> None) \<and>
   (Stringify h fuel v (ReplacerKeys (map KStr ks)) space = Ret out \<longrightarrow>
      WriteAttribute ''name'' k \<in> set (calls out) \<longrightarrow> k \<in> set ks)"
proof (intro conjI impI)
  assume "size v < fuel"
  moreover have "\<forall>k x. allow ks k x = Inr x \<or> (allow ks k x :: error + 'a value) = Inr Undefined"
    by (auto simp: allow_def)
  ultimately obtain c where "clone fuel (allow ks) v = Ret (c :: 'a value)"
    using clone_filter_returns by blast
  then show "Stringify h fuel v (ReplacerKeys (map KStr ks)) space \<noteq> None"
    by (auto simp: Stringify_def allow_def split: sum.splits)
next
  assume out: "Stringify h fuel v (ReplacerKeys (map KStr ks)) space = Ret out"
    and k: "WriteAttribute ''name'' k \<in> set (calls out)"
  from out obtain c body where c: "clone fuel (allow ks) v = Ret c"
    and body: "stringifyValue h c = Inr body"
    and eq: "calls out = [StartDocument ''1.0'' ''UTF-8'' True, StartElement (getTagname c)] @ body @
               [EndElement, EndDocument]"
    by (auto simp: Stringify_def allow_def split: sum.splits option.splits)
  have "restricted (set ks) c" using c by (rule clone_allow_restricted)
  moreover have "WriteAttribute ''name'' k \<in> set body" using k eq by auto
  ultimately show "k \<in> set ks" using restricted_names(1) body by blast
qed

theorem allow_list_only_listed_keys_witness:
  "size (Obj [(''c'', Bool False), (''b'', Obj [(''z'', Null), (''a'', Null)])]   :: string value) < 14 \<and>
   Stringify text_host 14
     (Obj [(''c'', Bool False), (''b'', Obj [(''z'', Null), (''a'', Null)])])
     (ReplacerKeys (map KStr [''a'', ''b''])) NoSpace =
     Ret \<lparr>indent = None,
          calls = [StartDocument ''1.0'' ''UTF-8'' True, StartElement ''object'',
                   StartElement ''object'', WriteAttribute ''name'' ''b'',
                   StartElement ''object'', WriteAttribute ''name'' ''a'', EndElement,
                   EndElement, EndElement, EndDocument]\<rparr> \<and>
   ''b'' \<in> set [''a'', ''b'']"
  using allow_list_only_listed_keys
    [of "Obj [(''c'', Bool False), (''b'', Obj [(''z'', Null), (''a'', Null)])]" 14 text_host
        "[''a'', ''b'']" NoSpace _ "''b''"]
  by (simp add: Stringify_def map_res_def append_calls_def obj_set_def array_index_def
      digit_val_def eval_nat_numeral)

section \<open>Parse: errors and the reviver\<close>

lemma prop_set_plain:
  "plain_object ob \<Longrightarrow> prop_set k v ob = Inr ob' \<Longrightarrow> plain_object ob'"
  by (cases ob) (auto simp: plain_object_def map_of_obj_set split: if_splits)

lemma update_at_plain:
  "plain_object ob \<Longrightarrow> update_at r (prop_set k v) ob = Inr ob' \<Longrightarrow> plain_object ob'"
  by (cases r) (auto split: option.splits sum.splits intro: prop_set_plain)

lemma assign_plain:
  "assign k v st = Inr st' \<Longrightarrow> plain_object (obj st) \<Longrightarrow> plain_object (obj st')"
  by (auto simp: assign_def split: option.splits sum.splits dest: update_at_plain)

lemma handle_plain:
  "handle h ev st = Inr st' \<Longrightarrow> plain_object (obj st) \<Longrightarrow> plain_object (obj st')"
  by (cases ev)
    (auto simp: onopentag_def note_root_def descend_def ontext_def onclosetag_def onerror_def Let_def
      split: if_splits option.splits sum.splits list.splits dest: assign_plain)

lemma parser_write_plain:
  "parser_write h evs st = Inr st' \<Longrightarrow> plain_object (obj st) \<Longrightarrow> plain_object (obj st')"
  by (induction evs arbitrary: st) (auto split: sum.splits dest: handle_plain)

lemma Parse_with_reviver:
  assumes "Parse h xml None n = Ret v"
  shows "Parse h xml (Some f) fuel = revive fuel f v"
proof -
  from assms obtain st where st: "parser_write h (events xml) initial = Inr st"
    and th: "thrown xml = None"
    and v: "read_root (obj st) (root_name (rootNode st)) = Inr v"
    by (auto simp: Parse_def split: sum.splits option.splits)
  have "plain_object (obj st)"
    using parser_write_plain[OF st] by (simp add: initial_def plain_object_def)
  then obtain ps where ps: "obj st = Obj ps" and proto: "map_of ps ''__proto__'' = None"
    by (cases "obj st") (auto simp: plain_object_def)
  have key: "root_name (rootNode st) \<noteq> ''__proto__''"
    using v ps proto by (auto simp: read_root_def inherited_names_def)
  show ?thesis
  proof (cases "revive fuel f v")
    case None
    then show ?thesis using st th v by (simp add: Parse_def)
  next
    case (Some r)
    then show ?thesis using st th v ps key
      by (cases r) (simp_all add: Parse_def read_root_def map_of_obj_set)
  qed
qed


lemma set_console_simps [simp]:
  "set_console c (Inl e) = Inl e"
  "set_console c (Inr st) = Inr (st\<lparr>console := c\<rparr>)"
  by (simp_all add: set_console_def)

lemma assign_console: "assign k v (st\<lparr>console := c\<rparr>) = set_console c (assign k v st)"
  by (cases "current st"; cases "update_at (the (current st)) (prop_set k v) (obj st)")
    (simp_all add: assign_def)

lemma descend_console:
  "descend t dt x (st\<lparr>console := c\<rparr>) = set_console c (descend t dt x st)"
  by (cases "assign (prop_key (attr_name t)) x st") (simp_all add: descend_def assign_console)

lemma note_root_console: "note_root t (st\<lparr>console := c\<rparr>) = (note_root t st)\<lparr>console := c\<rparr>"
  by (simp add: note_root_def)

lemma onopentag_console:
  "onopentag t (st\<lparr>console := c\<rparr>) = set_console c (onopentag t st)"
  unfolding onopentag_def Let_def note_root_console
  by (cases "assign (prop_key (attr_name t)) Null (note_root t st)")
    (simp_all add: assign_console descend_console)

lemma ontext_console: "ontext h t (st\<lparr>console := c\<rparr>) = set_console c (ontext h t st)"
  by (cases "path st"; cases "text_value h (tag_name (hd (path st))) t")
    (simp_all add: ontext_def assign_console)

lemma onclosetag_console:
  "onclosetag n (st\<lparr>console := c\<rparr>) = set_console c (onclosetag n st)"
  by (cases "path st") (simp_all add: onclosetag_def)

lemma handle_console:
  "(\<forall>e. ev \<noteq> ErrorEvent e) \<Longrightarrow> handle h ev (st\<lparr>console := c\<rparr>) = set_console c (handle h ev st)"
  by (cases ev) (simp_all add: onopentag_console ontext_console onclosetag_console)

lemma parser_write_console:
  "parser_write h evs (st\<lparr>console := c\<rparr>) =
     (case parser_write h (drop_errors evs) st of
        Inl e \<Rightarrow> Inl e
      | Inr st' \<Rightarrow> Inr (st'\<lparr>console := c @ reported evs\<rparr>))"
proof (induction evs arbitrary: st c)
  case Nil
  then show ?case by (simp add: drop_errors_def reported_def)
next
  case (Cons ev evs)
  show ?case
  proof (cases "\<exists>e. ev = ErrorEvent e")
    case True
    then obtain e where e: "ev = ErrorEvent e" by blast
    have keep: "drop_errors (ev # evs) = drop_errors evs" "reported (ev # evs) = e # reported evs"
      using e by (simp_all add: drop_errors_def reported_def)
    have "parser_write h (ev # evs) (st\<lparr>console := c\<rparr>) =
            parser_write h evs (st\<lparr>console := c @ [e]\<rparr>)"
      using e by (simp add: onerror_def)
    also have "\<dots> = (case parser_write h (drop_errors evs) st of
        Inl e \<Rightarrow> Inl e
      | Inr st' \<Rightarrow> Inr (st'\<lparr>console := (c @ [e]) @ reported evs\<rparr>))"
      by (rule Cons.IH)
    finally show ?thesis by (simp add: keep split: sum.splits)
  next
    case False
    then have ne: "\<forall>e. ev \<noteq> ErrorEvent e" by blast
    have keep: "drop_errors (ev # evs) = ev # drop_errors evs" "reported (ev # evs) = reported evs"
      using ne by (cases ev; simp add: drop_errors_def reported_def)+
    show ?thesis
      by (cases "handle h ev st")
        (simp_all add: keep handle_console[OF ne] Cons.IH split: sum.splits)
  qed
qed

lemma parser_write_drop_errors:
  "parser_write h evs initial =
     (case parser_write h (drop_errors evs) initial of
        Inl e \<Rightarrow> Inl e
      | Inr st' \<Rightarrow> Inr (st'\<lparr>console := reported evs\<rparr>))"
  using parser_write_console[where h = h and evs = evs and st = initial and c = "[]"]
  by (simp add: initial_def split: sum.splits)

lemma Parse_drop_errors:
  "Parse h \<lparr>events = evs, thrown = t\<rparr> reviver fuel =
   Parse h \<lparr>events = drop_errors evs, thrown = t\<rparr> reviver fuel"
proof -
  have a: "parser_write h evs initial =
     (case parser_write h (drop_errors evs) initial of
        Inl e \<Rightarrow> Inl e
      | Inr st' \<Rightarrow> Inr (st'\<lparr>console := reported evs\<rparr>))"
    by (rule parser_write_drop_errors)
  show ?thesis
    by (cases "parser_write h (drop_errors evs) initial")
      (auto simp: Parse_def a split: option.splits sum.splits)
qed

lemma walk_array_raise:
  "walk_array f rec n xs acc = Raise e \<Longrightarrow> (\<exists>k x. f k x = Inl e) \<or> (\<exists>y. rec y = Raise e)"
  by (induction xs arbitrary: n acc) (auto split: sum.splits option.splits if_splits)

lemma walk_object_raise:
  "walk_object f rec ps acc = Raise e \<Longrightarrow> (\<exists>k x. f k x = Inl e) \<or> (\<exists>y. rec y = Raise e)"
  by (induction ps arbitrary: acc) (auto split: sum.splits option.splits if_splits)

lemma revive_raise: "revive fuel f v = Raise e \<Longrightarrow> \<exists>k x. f k x = Inl e"
proof (induction fuel arbitrary: v)
  case 0
  then show ?case by simp
next
  case (Suc fuel)
  show ?case
  proof (cases v)
    case (Arr xs)
    then have "walk_array f (revive fuel f) 0 xs [] = Raise e"
      using Suc.prems by (auto simp: map_res_def split: option.splits sum.splits)
    then show ?thesis using walk_array_raise Suc.IH by blast
  next
    case (Obj ps)
    then have "walk_object f (revive fuel f) ps [] = Raise e"
      using Suc.prems by (auto simp: map_res_def split: option.splits sum.splits)
    then show ?thesis using walk_object_raise Suc.IH by blast
  qed (use Suc.prems in auto)
qed

text \<open>
  Claim C2, as the code has it. The spec says that \<^verbatim>\<open>parse\<close> raises a ParseError
  propagated from the parser's error callback on every malformed input. The callback
  of lines 22--24 only logs: the reports of the parser change nothing but the console,
  so \<^verbatim>\<open>parse\<close> returns what it returns on the same events without the reports. It
  raises what the parser's own call throws, and what the reviver throws, unmodified:
  every error that leaves \<^verbatim>\<open>revive\<close> is one the reviver returned.
\<close>

theorem error_callback_only_logs:
  "Parse h \<lparr>events = evs, thrown = t\<rparr> reviver fuel =
     Parse h \<lparr>events = drop_errors evs, thrown = t\<rparr> reviver fuel \<and>
   (parser_write h evs initial = Inr st \<longrightarrow>
      console st = reported evs \<and>
      Parse h \<lparr>events = evs, thrown = Some e\<rparr> reviver fuel = Raise (ParserError e)) \<and>
   (Parse h xml None 0 = Ret v \<longrightarrow> revive fuel f v = Raise e' \<longrightarrow>
      Parse h xml (Some f) fuel = Raise e') \<and>
   (revive fuel f v = Raise e' \<longrightarrow> (\<exists>k x. f k x = Inl e'))"
proof (intro conjI impI)
  show "Parse h \<lparr>events = evs, thrown = t\<rparr> reviver fuel =
     Parse h \<lparr>events = drop_errors evs, thrown = t\<rparr> reviver fuel"
    by (rule Parse_drop_errors)
next
  assume st: "parser_write h evs initial = Inr st"
  show "console st = reported evs"
    using st parser_write_drop_errors[of h evs] by (auto split: sum.splits)
  show "Parse h \<lparr>events = evs, thrown = Some e\<rparr> reviver fuel = Raise (ParserError e)"
    using st by (simp add: Parse_def)
next
  assume "Parse h xml None 0 = Ret v" and "revive fuel f v = Raise e'"
  then show "Parse h xml (Some f) fuel = Raise e'"
    using Parse_with_reviver[of h xml 0 v f fuel] by simp
next
  assume "revive fuel f v = Raise e'"
  then show "\<exists>k x. f k x = Inl e'" by (rule revive_raise)
qed

theorem error_callback_only_logs_witness:
  "Parse text_host
     \<lparr>events = [OpenTag \<lparr>tag_name = ''array'', attr_name = None, isSelfClosing = False\<rparr>,
                ErrorEvent ''Unexpected close tag'',
                OpenTag \<lparr>tag_name = ''number'', attr_name = Some ''0'', isSelfClosing = False\<rparr>,
                TextEvent ''1'', CloseTag ''number'', CloseTag ''array''],
      thrown = None\<rparr> None 0 = Ret (Arr [Num ''1'']) \<and>
   Parse text_host
     \<lparr>events = [OpenTag \<lparr>tag_name = ''array'', attr_name = None, isSelfClosing = False\<rparr>,
                ErrorEvent ''Unexpected close tag'',
                OpenTag \<lparr>tag_name = ''number'', attr_name = Some ''0'', isSelfClosing = False\<rparr>,
                TextEvent ''1'', CloseTag ''number'', CloseTag ''array''],
      thrown = None\<rparr> (Some (\<lambda>k v. Inl (Thrown ''reviver failed''))) 2 =
     Raise (Thrown ''reviver failed'') \<and>
   Parse text_host
     \<lparr>events = [OpenTag \<lparr>tag_name = ''array'', attr_name = None, isSelfClosing = False\<rparr>,
                ErrorEvent ''Unexpected close tag'',
                OpenTag \<lparr>tag_name = ''number'', attr_name = Some ''0'', isSelfClosing = False\<rparr>,
                TextEvent ''1'', CloseTag ''number'', CloseTag ''array''],
      thrown = Some ''Unexpected close tag''\<rparr> None 0 =
     Raise (ParserError ''Unexpected close tag'')"
  using error_callback_only_logs
    [where h = text_host and t = None and reviver = None and fuel = 2
       and evs = "[OpenTag \<lparr>tag_name = ''array'', attr_name = None, isSelfClosing = False\<rparr>,
          ErrorEvent ''Unexpected close tag'',
          OpenTag \<lparr>tag_name = ''number'', attr_name = Some ''0'', isSelfClosing = False\<rparr>,
          TextEvent ''1'', CloseTag ''number'', CloseTag ''array'']"
       and xml = "\<lparr>events = [OpenTag \<lparr>tag_name = ''array'', attr_name = None, isSelfClosing = False\<rparr>,
                ErrorEvent ''Unexpected close tag'',
                OpenTag \<lparr>tag_name = ''number'', attr_name = Some ''0'', isSelfClosing = False\<rparr>,
                TextEvent ''1'', CloseTag ''number'', CloseTag ''array''],
          thrown = None\<rparr>"
       and v = "Arr [Num ''1'']" and f = "\<lambda>k v. Inl (Thrown ''reviver failed'')"
       and e' = "Thrown ''reviver failed''"]
  by (simp add: run_defs drop_errors_def)

text \<open>
  Claim C2, as the spec states it, fails: the parser reports an unclosed root element
  when the input ends, through the callback only; \<^verbatim>\<open>Parse\<close> logs it and returns the
  object built so far.
\<close>

theorem malformed_input_returns_value:
  "Parse text_host
     \<lparr>events = [OpenTag \<lparr>tag_name = ''object'', attr_name = None, isSelfClosing = False\<rparr>,
                ErrorEvent ''Unclosed root tag''],
      thrown = None\<rparr> None 0 = Ret (Obj []) \<and>
   map_sum id console
     (parser_write text_host
        [OpenTag \<lparr>tag_name = ''object'', attr_name = None, isSelfClosing = False\<rparr>,
         ErrorEvent ''Unclosed root tag''] initial) = Inr [''Unclosed root tag'']"
  by (simp add: run_defs)

text \<open>
  Claim C5, as the code has it. The spec says that the reviver is applied to the
  top-level value as the entry \<open>(rootKey, value)\<close>. Line 117 passes the top-level value
  to \<^verbatim>\<open>revive\<close> instead, which calls the reviver on the entries of the arrays and
  objects it walks, never on the value it is given: with a reviver, \<^verbatim>\<open>parse\<close> returns
  \<^verbatim>\<open>revive\<close> of what it returns without one; a top-level scalar or date is returned
  unchanged whatever the reviver; and the reviver is called on the first entry of a
  top-level array or object (if it throws there, \<^verbatim>\<open>parse\<close> throws).
\<close>

theorem reviver_skips_top_level_value:
  "Parse h xml None n = Ret v \<longrightarrow>
     Parse h xml (Some f) fuel = revive fuel f v \<and>
     ((\<forall>xs. v \<noteq> Arr xs) \<and> (\<forall>ps. v \<noteq> Obj ps) \<and> v \<noteq> Null \<longrightarrow>
        Parse h xml (Some f) (Suc fuel) = Ret v) \<and>
     (\<forall>x xs e. v = Arr (x # xs) \<and> f (KNum 0) x = Inl e \<longrightarrow>
        Parse h xml (Some f) (Suc fuel) = Raise e) \<and>
     (\<forall>p ps e. v = Obj (p # ps) \<and> f (KStr (fst p)) (snd p) = Inl e \<longrightarrow>
        Parse h xml (Some f) (Suc fuel) = Raise e)"
proof (intro impI conjI allI)
  assume p: "Parse h xml None n = Ret v"
  show "Parse h xml (Some f) fuel = revive fuel f v"
    using p by (rule Parse_with_reviver)
  show "Parse h xml (Some f) (Suc fuel) = Ret v"
    if "(\<forall>xs. v \<noteq> Arr xs) \<and> (\<forall>ps. v \<noteq> Obj ps) \<and> v \<noteq> Null"
    using that Parse_with_reviver[OF p, of f "Suc fuel"] by (cases v) simp_all
  show "Parse h xml (Some f) (Suc fuel) = Raise e"
    if "v = Arr (x # xs) \<and> f (KNum 0) x = Inl e" for x xs e
    using that Parse_with_reviver[OF p, of f "Suc fuel"] by (simp add: map_res_def)
  show "Parse h xml (Some f) (Suc fuel) = Raise e"
    if "v = Obj (q # ps) \<and> f (KStr (fst q)) (snd q) = Inl e" for q ps e
    using that Parse_with_reviver[OF p, of f "Suc fuel"] by (simp add: map_res_def)
qed

theorem reviver_skips_top_level_value_witness:
  "Parse text_host
     \<lparr>events = [OpenTag \<lparr>tag_name = ''array'', attr_name = None, isSelfClosing = False\<rparr>,
                OpenTag \<lparr>tag_name = ''number'', attr_name = Some ''0'', isSelfClosing = False\<rparr>,
                TextEvent ''1'', CloseTag ''number'', CloseTag ''array''],
      thrown = None\<rparr> None 0 = Ret (Arr [Num ''1'']) \<and>
   Parse text_host
     \<lparr>events = [OpenTag \<lparr>tag_name = ''array'', attr_name = None, isSelfClosing = False\<rparr>,
                OpenTag \<lparr>tag_name = ''number'', attr_name = Some ''0'', isSelfClosing = False\<rparr>,
                TextEvent ''1'', CloseTag ''number'', CloseTag ''array''],
      thrown = None\<rparr> (Some (\<lambda>k v. if v = Arr [Num ''1''] then Inl (Thrown ''root'') else Inr Undefined)) 2 =
     Ret (Arr [])"
  using reviver_skips_top_level_value
    [of text_host
        "\<lparr>events = [OpenTag \<lparr>tag_name = ''array'', attr_name = None, isSelfClosing = False\<rparr>,
                OpenTag \<lparr>tag_name = ''number'', attr_name = Some ''0'', isSelfClosing = False\<rparr>,
                TextEvent ''1'', CloseTag ''number'', CloseTag ''array''],
          thrown = None\<rparr>" 0 "Arr [Num ''1'']"
        "\<lambda>k v. if v = Arr [Num ''1''] then Inl (Thrown ''root'') else Inr Undefined" 2]
  by (simp add: run_defs)

text \<open>
  Claim C5, as the spec states it, fails: for the document of the number 1, a reviver
  that throws whenever it is called is never called, and a reviver that omits every
  entry does not omit the top-level value.
\<close>

theorem reviver_not_called_on_root:
  "Parse text_host
     \<lparr>events = [OpenTag \<lparr>tag_name = ''number'', attr_name = None, isSelfClosing = False\<rparr>,
                TextEvent ''1'', CloseTag ''number''],
      thrown = None\<rparr> (Some (\<lambda>k v. Inl (Thrown ''reviver called''))) 1 = Ret (Num ''1'') \<and>
   Parse text_host
     \<lparr>events = [OpenTag \<lparr>tag_name = ''number'', attr_name = None, isSelfClosing = False\<rparr>,
                TextEvent ''1'', CloseTag ''number''],
      thrown = None\<rparr> (Some (\<lambda>k v. Inr Undefined)) 1 = Ret (Num ''1'')"
  by (simp add: run_defs)


section \<open>Functions\<close>

lemma walk_array_identity_keeps:
  "walk_array (\<lambda>k v. Inr v) rec n xs acc = Ret r \<Longrightarrow>
   set acc \<subseteq> set r \<and> (\<forall>x \<in> set xs. x \<noteq> Undefined \<longrightarrow> (\<exists>c. rec x = Ret c \<and> c \<in> set r))"
proof (induction xs arbitrary: n acc)
  case Nil
  then show ?case by simp
next
  case (Cons x xs)
  show ?case
  proof (cases "x = Undefined")
    case True
    then have "walk_array (\<lambda>k v. Inr v) rec (Suc n) xs acc = Ret r" using Cons.prems by simp
    from Cons.IH[OF this] show ?thesis using True by simp
  next
    case False
    then obtain c where c: "rec x = Ret c"
      and w: "walk_array (\<lambda>k v. Inr v) rec (Suc n) xs (acc @ [c]) = Ret r"
      using Cons.prems by (auto split: option.splits sum.splits)
    from Cons.IH[OF w] show ?thesis using c by auto
  qed
qed

lemma walk_object_identity_keeps:
  "walk_object (\<lambda>k v. Inr v) rec ps acc = Ret r \<Longrightarrow> distinct (map fst ps) \<Longrightarrow>
   (\<forall>k. k \<notin> fst ` set ps \<longrightarrow> map_of r k = map_of acc k) \<and>
   (\<forall>p \<in> set ps. snd p \<noteq> Undefined \<longrightarrow> (\<exists>c. rec (snd p) = Ret c \<and> map_of r (fst p) = Some c))"
proof (induction ps arbitrary: acc)
  case Nil
  then show ?case by simp
next
  case (Cons p ps)
  have d: "distinct (map fst ps)" and fresh: "fst p \<notin> fst ` set ps" using Cons.prems(2) by auto
  show ?case
  proof (cases "snd p = Undefined")
    case True
    then have "walk_object (\<lambda>k v. Inr v) rec ps acc = Ret r" using Cons.prems(1) by simp
    from Cons.IH[OF this d] show ?thesis using True by auto
  next
    case False
    then obtain c where c: "rec (snd p) = Ret c"
      and w: "walk_object (\<lambda>k v. Inr v) rec ps (obj_set (fst p) c acc) = Ret r"
      using Cons.prems(1) by (auto split: option.splits sum.splits)
    from Cons.IH[OF w d]
    have a: "\<forall>k. k \<notin> fst ` set ps \<longrightarrow> map_of r k = map_of (obj_set (fst p) c acc) k"
      and b: "\<forall>q \<in> set ps. snd q \<noteq> Undefined \<longrightarrow>
                (\<exists>c. rec (snd q) = Ret c \<and> map_of r (fst q) = Some c)"
      by blast+
    have "map_of r (fst p) = Some c" using a fresh by (simp add: map_of_obj_set)
    moreover have "\<forall>k. k \<notin> fst ` set (p # ps) \<longrightarrow> map_of r k = map_of acc k"
      using a by (simp add: map_of_obj_set)
    ultimately show ?thesis using b c by auto
  qed
qed

lemma clone_keeps_function:
  "clone fuel (\<lambda>k v. Inr v) v = Ret c \<Longrightarrow> distinct_keys v \<Longrightarrow> has_function v \<Longrightarrow> has_function c"
proof (induction fuel arbitrary: v c)
  case 0
  then show ?case by simp
next
  case (Suc fuel)
  show ?case
  proof (cases v)
    case (Arr xs)
    then obtain r where r: "walk_array (\<lambda>k v. Inr v) (clone fuel (\<lambda>k v. Inr v)) 0 xs [] = Ret r"
      and c: "c = Arr r"
      using Suc.prems(1) by (auto simp: map_res_def split: option.splits sum.splits)
    obtain x where x: "x \<in> set xs" "has_function x" using Suc.prems(3) Arr by auto
    then have "x \<noteq> Undefined" by auto
    then obtain c' where c': "clone fuel (\<lambda>k v. Inr v) x = Ret c'" "c' \<in> set r"
      using walk_array_identity_keeps[OF r] x(1) by blast
    have "distinct_keys x" using Suc.prems(2) Arr x(1) by simp
    then have "has_function c'" using Suc.IH[OF c'(1)] x(2) by simp
    then show ?thesis using c c'(2) by auto
  next
    case (Obj ps)
    then obtain r where r: "walk_object (\<lambda>k v. Inr v) (clone fuel (\<lambda>k v. Inr v)) ps [] = Ret r"
      and c: "c = Obj r"
      using Suc.prems(1) by (auto simp: map_res_def split: option.splits sum.splits)
    obtain p where p: "p \<in> set ps" "has_function (snd p)" using Suc.prems(3) Obj by auto
    then have "snd p \<noteq> Undefined" by auto
    moreover have "distinct (map fst ps)" using Suc.prems(2) Obj by simp
    ultimately obtain c' where c': "clone fuel (\<lambda>k v. Inr v) (snd p) = Ret c'"
      "map_of r (fst p) = Some c'"
      using walk_object_identity_keeps[OF r] p(1) by blast
    have "distinct_keys (snd p)" using Suc.prems(2) Obj p(1) by simp
    then have "has_function c'" using Suc.IH[OF c'(1)] p(2) by simp
    moreover have "(fst p, c') \<in> set r" using c'(2) by (rule map_of_SomeD)
    ultimately show ?thesis using c by force
  qed (use Suc.prems in auto)
qed

lemma getTagname_function: "getTagname v = ''function'' \<Longrightarrow> typeof v = ''function''"
  by (cases v) auto

lemma no_function_element:
  shows "stringifyValue h v = Inr cs \<Longrightarrow> StartElement ''function'' \<notin> set cs"
    and "stringify_array h n xs = Inr cs \<Longrightarrow> StartElement ''function'' \<notin> set cs"
    and "stringify_object h ps = Inr cs \<Longrightarrow> StartElement ''function'' \<notin> set cs"
proof (induction h v and h n xs and h ps arbitrary: cs and cs and cs
    rule: stringifyValue_stringify_array_stringify_object.induct)
  case (11 h n x xs)
  show ?case
  proof (cases "typeof x = ''function''")
    case True
    then show ?thesis using 11(1)[OF True] 11(4) by simp
  next
    case False
    then obtain body rest where body: "stringifyValue h x = Inr body"
      and rest: "stringify_array h (Suc n) xs = Inr rest"
      and eq: "cs = [StartElement (getTagname x), WriteAttribute ''name'' (show_nat n)] @ body @
                [EndElement] @ rest"
      using 11(4) by (auto split: sum.splits dest!: names_append_calls)
    have "getTagname x \<noteq> ''function''" using False getTagname_function by blast
    then show ?thesis using eq 11(2)[OF False body] 11(3)[OF False body rest] by simp
  qed
next
  case (13 h p ps)
  show ?case
  proof (cases "typeof (snd p) = ''function''")
    case True
    then show ?thesis using 13(1)[OF True] 13(4) by simp
  next
    case False
    then obtain body rest where body: "stringifyValue h (snd p) = Inr body"
      and rest: "stringify_object h ps = Inr rest"
      and eq: "cs = [StartElement (getTagname (snd p)), WriteAttribute ''name'' (fst p)] @ body @
                [EndElement] @ rest"
      using 13(4) by (auto split: sum.splits dest!: names_append_calls)
    have "getTagname (snd p) \<noteq> ''function''" using False getTagname_function by blast
    then show ?thesis using eq 13(2)[OF False body] 13(3)[OF False body rest] by simp
  qed
qed (auto split: option.splits)

text \<open>
  Claim C6, as the code has it. The spec says that the clone-and-filter pass treats a
  function-typed entry value as omitted, so that the clone never contains a function.
  \<^verbatim>\<open>clone\<close> omits an entry only when the replacer returns \<^verbatim>\<open>undefined\<close> for it: a
  function is kept, and without a replacer the clone of a value returns once the
  recursion bound exceeds the size of the value, and holds a function whenever the value
  does. It is the serialize pass that skips function-valued entries (lines 206
  and 214): no element is written for one, so past the root element the output has no
  \<^verbatim>\<open>function\<close> element.
\<close>

theorem clone_keeps_functions_serializer_skips:
  "(size v < fuel \<longrightarrow> (\<exists>c. clone fuel (normalize_replacer NoReplacer) v = Ret c)) \<and>
   (clone fuel (normalize_replacer NoReplacer) v = Ret c \<longrightarrow> distinct_keys v \<longrightarrow>
      has_function v \<longrightarrow> has_function c) \<and>
   (stringifyValue h c = Inr cs \<longrightarrow> StartElement ''function'' \<notin> set cs) \<and>
   (Stringify h fuel v replacer space = Ret out \<longrightarrow>
      StartElement ''function'' \<notin> set (drop 2 (calls out)))"
proof (intro conjI impI)
  show "\<exists>c. clone fuel (normalize_replacer NoReplacer) v = Ret c" if "size v < fuel"
    using that clone_filter_returns[of "\<lambda>k v. Inr v" v fuel] by simp
  show "has_function c"
    if "clone fuel (normalize_replacer NoReplacer) v = Ret c" "distinct_keys v" "has_function v"
    using that clone_keeps_function[of fuel v c] by simp
  show "StartElement ''function'' \<notin> set cs" if "stringifyValue h c = Inr cs"
    using that by (rule no_function_element(1))
  show "StartElement ''function'' \<notin> set (drop 2 (calls out))"
    if "Stringify h fuel v replacer space = Ret out"
  proof -
    from that obtain c' body where body: "stringifyValue h c' = Inr body"
      and eq: "calls out = [StartDocument ''1.0'' ''UTF-8'' True, StartElement (getTagname c')] @
                 body @ [EndElement, EndDocument]"
      by (auto simp: Stringify_def split: sum.splits option.splits)
    show ?thesis using no_function_element(1)[OF body] eq by simp
  qed
qed

theorem clone_keeps_functions_serializer_skips_witness:
  "size (Obj [(''f'', Fun), (''g'', Bool True)] :: string value) < 8 \<and>
   clone 8 (normalize_replacer NoReplacer) (Obj [(''f'', Fun), (''g'', Bool True)] :: string value) =
     Ret (Obj [(''f'', Fun), (''g'', Bool True)]) \<and>
   distinct_keys (Obj [(''f'', Fun), (''g'', Bool True)] :: string value) \<and>
   has_function (Obj [(''f'', Fun), (''g'', Bool True)] :: string value) \<and>
   Stringify text_host 8 (Obj [(''f'', Fun), (''g'', Bool True)]) NoReplacer NoSpace =
     Ret \<lparr>indent = None,
          calls = [StartDocument ''1.0'' ''UTF-8'' True, StartElement ''object'',
                   StartElement ''boolean'', WriteAttribute ''name'' ''g'', Text ''true'',
                   EndElement, EndElement, EndDocument]\<rparr>"
  using clone_keeps_functions_serializer_skips
    [where fuel = 8 and v = "Obj [(''f'', Fun), (''g'', Bool True)] :: string value"
       and c = "Obj [(''f'', Fun), (''g'', Bool True)]" and h = text_host
       and replacer = NoReplacer and space = NoSpace]
  by (simp add: run_defs)

text \<open>
  Claim C6, as the spec states it, fails: the clone of \<^verbatim>\<open>[f]\<close>, for a function
  \<^verbatim>\<open>f\<close>, is \<^verbatim>\<open>[f]\<close>.
\<close>

theorem clone_contains_function:
  "clone 2 (normalize_replacer NoReplacer) (Arr [Fun] :: string value) = Ret (Arr [Fun]) \<and>
   has_function (Arr [Fun] :: string value)"
  by (simp add: run_defs)


section \<open>The name attribute\<close>

lemma named_append:
  "every_element_named xs \<Longrightarrow> every_element_named ys \<Longrightarrow> every_element_named (xs @ ys)"
  by (induction xs rule: every_element_named.induct) auto

lemma stringify_named:
  shows "stringifyValue h v = Inr cs \<Longrightarrow> every_element_named cs"
    and "stringify_array h n xs = Inr cs \<Longrightarrow> every_element_named cs"
    and "stringify_object h ps = Inr cs \<Longrightarrow> every_element_named cs"
proof (induction h v and h n xs and h ps arbitrary: cs and cs and cs
    rule: stringifyValue_stringify_array_stringify_object.induct)
  case (11 h n x xs)
  show ?case
  proof (cases "typeof x = ''function''")
    case True
    then show ?thesis using 11(1)[OF True] 11(4) by simp
  next
    case False
    then obtain body rest where body: "stringifyValue h x = Inr body"
      and rest: "stringify_array h (Suc n) xs = Inr rest"
      and eq: "cs = [StartElement (getTagname x), WriteAttribute ''name'' (show_nat n)] @ body @
                [EndElement] @ rest"
      using 11(4) by (auto split: sum.splits dest!: names_append_calls)
    have "every_element_named (body @ [EndElement] @ rest)"
      using 11(2)[OF False body] 11(3)[OF False body rest] by (intro named_append) simp_all
    then show ?thesis using eq by simp
  qed
next
  case (13 h p ps)
  show ?case
  proof (cases "typeof (snd p) = ''function''")
    case True
    then show ?thesis using 13(1)[OF True] 13(4) by simp
  next
    case False
    then obtain body rest where body: "stringifyValue h (snd p) = Inr body"
      and rest: "stringify_object h ps = Inr rest"
      and eq: "cs = [StartElement (getTagname (snd p)), WriteAttribute ''name'' (fst p)] @ body @
                [EndElement] @ rest"
      using 13(4) by (auto split: sum.splits dest!: names_append_calls)
    have "every_element_named (body @ [EndElement] @ rest)"
      using 13(2)[OF False body] 13(3)[OF False body rest] by (intro named_append) simp_all
    then show ?thesis using eq by simp
  qed
qed (auto split: option.splits)

lemma stringify_starts:
  shows "stringifyValue h v = Inr cs \<Longrightarrow> starts_content cs"
    and "stringify_array h n xs = Inr cs \<Longrightarrow> starts_content cs"
    and "stringify_object h ps = Inr cs \<Longrightarrow> starts_content cs"
proof (induction h v and h n xs and h ps arbitrary: cs and cs and cs
    rule: stringifyValue_stringify_array_stringify_object.induct)
  case (11 h n x xs)
  then show ?case
    by (cases "typeof x = ''function''")
      (auto simp: starts_content_def split: sum.splits dest!: names_append_calls)
next
  case (13 h p ps)
  then show ?case
    by (cases "typeof (snd p) = ''function''")
      (auto simp: starts_content_def split: sum.splits dest!: names_append_calls)
qed (auto simp: starts_content_def split: option.splits)

lemma child_names_inner:
  shows "stringifyValue h v = Inr cs \<Longrightarrow> child_names (Suc d) (cs @ rest) = child_names (Suc d) rest"
    and "stringify_array h n xs = Inr cs \<Longrightarrow> child_names (Suc d) (cs @ rest) = child_names (Suc d) rest"
    and "stringify_object h ps = Inr cs \<Longrightarrow> child_names (Suc d) (cs @ rest) = child_names (Suc d) rest"
proof (induction h v and h n xs and h ps arbitrary: cs d rest and cs d rest and cs d rest
    rule: stringifyValue_stringify_array_stringify_object.induct)
  case (11 h n x xs)
  show ?case
  proof (cases "typeof x = ''function''")
    case True
    then show ?thesis using 11(1)[OF True] 11(4) by simp
  next
    case False
    then obtain body tl where body: "stringifyValue h x = Inr body"
      and tl: "stringify_array h (Suc n) xs = Inr tl"
      and eq: "cs = [StartElement (getTagname x), WriteAttribute ''name'' (show_nat n)] @ body @
                [EndElement] @ tl"
      using 11(4) by (auto split: sum.splits dest!: names_append_calls)
    have "child_names (Suc d) (cs @ rest) =
            child_names (Suc (Suc d)) (body @ (EndElement # tl @ rest))"
      using eq by simp
    also have "\<dots> = child_names (Suc (Suc d)) (EndElement # tl @ rest)"
      by (rule 11(2)[OF False body])
    also have "\<dots> = child_names (Suc d) (tl @ rest)" by simp
    also have "\<dots> = child_names (Suc d) rest" by (rule 11(3)[OF False body tl])
    finally show ?thesis .
  qed
next
  case (13 h p ps)
  show ?case
  proof (cases "typeof (snd p) = ''function''")
    case True
    then show ?thesis using 13(1)[OF True] 13(4) by simp
  next
    case False
    then obtain body tl where body: "stringifyValue h (snd p) = Inr body"
      and tl: "stringify_object h ps = Inr tl"
      and eq: "cs = [StartElement (getTagname (snd p)), WriteAttribute ''name'' (fst p)] @ body @
                [EndElement] @ tl"
      using 13(4) by (auto split: sum.splits dest!: names_append_calls)
    have "child_names (Suc d) (cs @ rest) =
            child_names (Suc (Suc d)) (body @ (EndElement # tl @ rest))"
      using eq by simp
    also have "\<dots> = child_names (Suc (Suc d)) (EndElement # tl @ rest)"
      by (rule 13(2)[OF False body])
    also have "\<dots> = child_names (Suc d) (tl @ rest)" by simp
    also have "\<dots> = child_names (Suc d) rest" by (rule 13(3)[OF False body tl])
    finally show ?thesis .
  qed
qed (auto split: option.splits)

lemma indices_Cons:
  "map (\<lambda>i. show_nat (n + i)) (filter (\<lambda>i. typeof ((x # xs) ! i) \<noteq> ''function'') [0..<length (x # xs)]) =
   (if typeof x \<noteq> ''function'' then [show_nat n] else []) @
   map (\<lambda>i. show_nat (Suc n + i)) (filter (\<lambda>i. typeof (xs ! i) \<noteq> ''function'') [0..<length xs])"
proof -
  have "[0..<length (x # xs)] = 0 # map Suc [0..<length xs]"
    by (simp add: upt_conv_Cons map_Suc_upt del: upt_Suc)
  then show ?thesis by (simp add: filter_map comp_def del: upt_Suc)
qed

lemma child_names_array:
  "stringify_array h n xs = Inr cs \<Longrightarrow>
   child_names 0 (cs @ rest) =
     map (\<lambda>i. show_nat (n + i)) (filter (\<lambda>i. typeof (xs ! i) \<noteq> ''function'') [0..<length xs]) @
     child_names 0 rest"
proof (induction xs arbitrary: n cs)
  case Nil
  then show ?case by simp
next
  case (Cons x xs)
  show ?case
  proof (cases "typeof x = ''function''")
    case True
    then have "stringify_array h (Suc n) xs = Inr cs" using Cons.prems by simp
    from Cons.IH[OF this] show ?thesis using True unfolding indices_Cons by simp
  next
    case False
    then obtain body tl where body: "stringifyValue h x = Inr body"
      and tl: "stringify_array h (Suc n) xs = Inr tl"
      and eq: "cs = [StartElement (getTagname x), WriteAttribute ''name'' (show_nat n)] @ body @
                [EndElement] @ tl"
      using Cons.prems by (auto split: sum.splits dest!: names_append_calls)
    have "child_names 0 (cs @ rest) = show_nat n # child_names (Suc 0) (body @ (EndElement # tl @ rest))"
      using eq by simp
    also have "child_names (Suc 0) (body @ (EndElement # tl @ rest)) =
                 child_names (Suc 0) (EndElement # tl @ rest)"
      by (rule child_names_inner(1)[OF body])
    also have "\<dots> = child_names 0 (tl @ rest)" by simp
    finally show ?thesis using Cons.IH[OF tl] False unfolding indices_Cons by simp
  qed
qed

lemma child_names_object:
  "stringify_object h ps = Inr cs \<Longrightarrow>
   child_names 0 (cs @ rest) =
     map fst (filter (\<lambda>p. typeof (snd p) \<noteq> ''function'') ps) @ child_names 0 rest"
proof (induction ps arbitrary: cs)
  case Nil
  then show ?case by simp
next
  case (Cons p ps)
  show ?case
  proof (cases "typeof (snd p) = ''function''")
    case True
    then have "stringify_object h ps = Inr cs" using Cons.prems by simp
    from Cons.IH[OF this] show ?thesis using True by simp
  next
    case False
    then obtain body tl where body: "stringifyValue h (snd p) = Inr body"
      and tl: "stringify_object h ps = Inr tl"
      and eq: "cs = [StartElement (getTagname (snd p)), WriteAttribute ''name'' (fst p)] @ body @
                [EndElement] @ tl"
      using Cons.prems by (auto split: sum.splits dest!: names_append_calls)
    have "child_names 0 (cs @ rest) = fst p # child_names (Suc 0) (body @ (EndElement # tl @ rest))"
      using eq by simp
    also have "child_names (Suc 0) (body @ (EndElement # tl @ rest)) =
                 child_names (Suc 0) (EndElement # tl @ rest)"
      by (rule child_names_inner(1)[OF body])
    also have "\<dots> = child_names 0 (tl @ rest)" by simp
    finally show ?thesis using Cons.IH[OF tl] False by simp
  qed
qed


lemma assign_root: "assign k v st = Inr st' \<Longrightarrow> rootNode st' = rootNode st"
  by (auto simp: assign_def split: option.splits sum.splits)

lemma descend_root: "descend t dt x st = Inr st' \<Longrightarrow> rootNode st' = rootNode st"
  by (auto simp: descend_def split: sum.splits dest: assign_root)

lemma onopentag_root: "onopentag t st = Inr st' \<Longrightarrow> rootNode st' = rootNode (note_root t st)"
  by (auto simp: onopentag_def Let_def split: if_splits sum.splits dest: assign_root descend_root)

lemma handle_root_kept:
  "handle h ev st = Inr st' \<Longrightarrow> rootNode st \<noteq> RootNull \<Longrightarrow> rootNode st' = rootNode st"
proof (cases ev)
  case (OpenTag t)
  assume "handle h ev st = Inr st'" and "rootNode st \<noteq> RootNull"
  then show ?thesis using OpenTag onopentag_root[of t st st'] by (simp add: note_root_def)
next
  case (TextEvent s)
  assume "handle h ev st = Inr st'"
  then show ?thesis using TextEvent
    by (auto simp: ontext_def split: list.splits option.splits dest: assign_root)
next
  case (CloseTag n)
  assume "handle h ev st = Inr st'"
  then show ?thesis using CloseTag by (auto simp: onclosetag_def split: list.splits)
next
  case (ErrorEvent e)
  assume "handle h ev st = Inr st'"
  then show ?thesis using ErrorEvent by (auto simp: onerror_def)
qed

lemma parser_write_root_kept:
  "parser_write h evs st = Inr st' \<Longrightarrow> rootNode st \<noteq> RootNull \<Longrightarrow> rootNode st' = rootNode st"
proof (induction evs arbitrary: st)
  case Nil
  then show ?case by simp
next
  case (Cons ev evs)
  then obtain st1 where h1: "handle h ev st = Inr st1" and w: "parser_write h evs st1 = Inr st'"
    by (auto split: sum.splits)
  have "rootNode st1 = rootNode st" using handle_root_kept[OF h1 Cons.prems(2)] .
  then show ?case using Cons.IH[OF w] Cons.prems(2) by simp
qed

lemma first_open_sets_root:
  assumes "parser_write h (OpenTag t # evs) initial = Inr st" and "attr_name t = None"
  shows "rootNode st = RootUndefined"
proof -
  from assms(1) obtain st1 where o: "onopentag t initial = Inr st1"
    and w: "parser_write h evs st1 = Inr st"
    by (auto split: sum.splits)
  have "rootNode st1 = RootUndefined"
    using onopentag_root[OF o] assms(2) by (simp add: note_root_def initial_def)
  then show ?thesis using parser_write_root_kept[OF w] by simp
qed

lemma document_first_event:
  assumes "starts_content body"
  shows "\<exists>t rest. compact_events ([StartDocument v e s, StartElement tg] @ body @ [EndElement, EndDocument])
            None [] = OpenTag t # rest \<and> attr_name t = None"
proof (cases body)
  case Nil
  then show ?thesis by (simp add: flush_tag_def)
next
  case (Cons c cs)
  then show ?thesis using assms by (cases c) (simp_all add: starts_content_def flush_tag_def)
qed

text \<open>
  Claim C4, as the code has it. The spec says that every element, the root included,
  carries a \<^verbatim>\<open>name\<close> attribute. Lines 227--229 start the root element and write no
  attribute for it. So: in the calls of \<^verbatim>\<open>stringify\<close>, every element inside the root
  element carries a \<^verbatim>\<open>name\<close> attribute, written right after its start; the root
  element carries none; the names of the elements written for an array are the indices
  of its entries that are not functions, as decimal text, and those written for an
  object are the names of its properties that are not functions; and \<^verbatim>\<open>Parse\<close>, on the
  events of that document, finds the root's \<^verbatim>\<open>name\<close> attribute \<^verbatim>\<open>undefined\<close>, so the
  value it returns is the one stored under the key "undefined".
\<close>

theorem elements_named_except_root:
  "(Stringify h fuel v replacer space = Ret out \<longrightarrow>
      (\<exists>tg body. calls out = [StartDocument ''1.0'' ''UTF-8'' True, StartElement tg] @ body @
                                [EndElement, EndDocument] \<and>
                  every_element_named body \<and> (\<forall>k x cs. body \<noteq> WriteAttribute k x # cs)) \<and>
      (\<forall>st. parser_write h (events (parser_run out)) initial = Inr st \<longrightarrow>
            rootNode st = RootUndefined)) \<and>
   (stringifyValue h (Arr xs) = Inr cs \<longrightarrow>
      child_names 0 cs =
        map show_nat (filter (\<lambda>i. typeof (xs ! i) \<noteq> ''function'') [0..<length xs])) \<and>
   (stringifyValue h (Obj ps) = Inr cs \<longrightarrow>
      child_names 0 cs = map fst (filter (\<lambda>p. typeof (snd p) \<noteq> ''function'') ps))"
proof (intro conjI impI)
  assume out: "Stringify h fuel v replacer space = Ret out"
  then obtain c body where body: "stringifyValue h c = Inr body"
    and eq: "calls out = [StartDocument ''1.0'' ''UTF-8'' True, StartElement (getTagname c)] @
               body @ [EndElement, EndDocument]"
    by (auto simp: Stringify_def split: sum.splits option.splits)
  have named: "every_element_named body" using body by (rule stringify_named(1))
  have starts: "starts_content body" using body by (rule stringify_starts(1))
  then have "\<forall>k x cs. body \<noteq> WriteAttribute k x # cs" by (auto simp: starts_content_def)
  then show "\<exists>tg body. calls out = [StartDocument ''1.0'' ''UTF-8'' True, StartElement tg] @ body @
                                [EndElement, EndDocument] \<and>
                  every_element_named body \<and> (\<forall>k x cs. body \<noteq> WriteAttribute k x # cs)"
    using eq named by blast
  show "\<forall>st. parser_write h (events (parser_run out)) initial = Inr st \<longrightarrow>
            rootNode st = RootUndefined"
  proof (intro allI impI)
    fix st assume st: "parser_write h (events (parser_run out)) initial = Inr st"
    obtain t rest where "compact_events (calls out) None [] = OpenTag t # rest" "attr_name t = None"
      using document_first_event[OF starts] eq by metis
    then show "rootNode st = RootUndefined"
      using st first_open_sets_root[of h t rest st] by (simp add: parser_run_def)
  qed
next
  assume "stringifyValue h (Arr xs) = Inr cs"
  then show "child_names 0 cs =
        map show_nat (filter (\<lambda>i. typeof (xs ! i) \<noteq> ''function'') [0..<length xs])"
    using child_names_array[of h 0 xs cs "[]"] by simp
next
  assume "stringifyValue h (Obj ps) = Inr cs"
  then show "child_names 0 cs = map fst (filter (\<lambda>p. typeof (snd p) \<noteq> ''function'') ps)"
    using child_names_object[of h ps cs "[]"] by simp
qed

theorem elements_named_except_root_witness:
  "Stringify text_host 2 (Arr [Bool True, Fun, Null]) NoReplacer NoSpace =
     Ret \<lparr>indent = None,
          calls = [StartDocument ''1.0'' ''UTF-8'' True, StartElement ''array'',
                   StartElement ''boolean'', WriteAttribute ''name'' ''0'', Text ''true'',
                   EndElement,
                   StartElement ''object'', WriteAttribute ''name'' ''2'', EndElement,
                   EndElement, EndDocument]\<rparr> \<and>
   child_names 0
     [StartElement ''boolean'', WriteAttribute ''name'' ''0'', Text ''true'', EndElement,
      StartElement ''object'', WriteAttribute ''name'' ''2'', EndElement] = [''0'', ''2''] \<and>
   map_sum id rootNode
     (parser_write text_host
        (compact_events
           [StartDocument ''1.0'' ''UTF-8'' True, StartElement ''array'',
            StartElement ''boolean'', WriteAttribute ''name'' ''0'', Text ''true'', EndElement,
            StartElement ''object'', WriteAttribute ''name'' ''2'', EndElement,
            EndElement, EndDocument] None []) initial) = Inr RootUndefined"
  using elements_named_except_root
    [where h = text_host and fuel = 2 and v = "Arr [Bool True, Fun, Null]"
       and replacer = NoReplacer and space = NoSpace and xs = "[Bool True, Fun, Obj []]"
       and cs = "[StartElement ''boolean'', WriteAttribute ''name'' ''0'', Text ''true'', EndElement,
                  StartElement ''object'', WriteAttribute ''name'' ''2'', EndElement]"]
  by (simp add: run_defs)

text \<open>
  Claim C4, as the spec states it, fails: in the document of the number 1 the only
  element, the root, has no attribute at all.
\<close>

theorem root_element_has_no_name:
  "Stringify text_host 1 (Num ''1'') NoReplacer NoSpace =
     Ret \<lparr>indent = None,
          calls = [StartDocument ''1.0'' ''UTF-8'' True, StartElement ''number'', Text ''1'',
                   EndElement, EndDocument]\<rparr> \<and>
   \<not> every_element_named
       [StartDocument ''1.0'' ''UTF-8'' True, StartElement ''number'', Text ''1'', EndElement,
        EndDocument]"
  by (simp add: run_defs)


section \<open>What does come back\<close>

lemma scalar_facts:
  assumes "scalar h v"
  shows "\<exists>tx. tx \<noteq> [] \<and> stringifyValue h v = Inr [Text tx] \<and>
           text_value h (getTagname v) tx = Some (reread h v)"
    and "getTagname v = ''date'' \<or> getTagname v = ''number'' \<or> getTagname v = ''string'' \<or>
         getTagname v = ''boolean''"
    and "typeof v \<noteq> ''function''" and "v \<noteq> Undefined"
    and "clone (Suc n) f v = Ret v"
  using assms by (cases v; auto simp: text_value_def split: option.splits)+

text \<open>
  An array of three scalars, each written with a text that is not empty, comes back in
  order, each scalar as its text is read back; with a reviver that omits index 1 the
  result is the two-element array of the first and the third.
\<close>

theorem scalar_array_roundtrip:
  assumes "scalar h a" and "scalar h b" and "scalar h c"
  shows "roundtrip h 5 (Arr [a, b, c]) NoReplacer None =
           Ret (Arr [reread h a, reread h b, reread h c]) \<and>
         roundtrip h 5 (Arr [a, b, c]) NoReplacer
           (Some (\<lambda>k v. if k = KNum 1 then Inr Undefined else Inr v)) =
           Ret (Arr [reread h a, reread h c])"
proof -
  obtain ta where ta: "ta \<noteq> []" "stringifyValue h a = Inr [Text ta]"
    "text_value h (getTagname a) ta = Some (reread h a)"
    using scalar_facts(1)[OF assms(1)] by blast
  obtain tb where tb: "tb \<noteq> []" "stringifyValue h b = Inr [Text tb]"
    "text_value h (getTagname b) tb = Some (reread h b)"
    using scalar_facts(1)[OF assms(2)] by blast
  obtain tc where tc: "tc \<noteq> []" "stringifyValue h c = Inr [Text tc]"
    "text_value h (getTagname c) tc = Some (reread h c)"
    using scalar_facts(1)[OF assms(3)] by blast
  note ga = scalar_facts(2)[OF assms(1)] and gb = scalar_facts(2)[OF assms(2)]
    and gc = scalar_facts(2)[OF assms(3)]
  note fa = scalar_facts(3,4)[OF assms(1)] and fb = scalar_facts(3,4)[OF assms(2)]
    and fc = scalar_facts(3,4)[OF assms(3)]
  note ca = scalar_facts(5)[OF assms(1)] and cb = scalar_facts(5)[OF assms(2)]
    and cc = scalar_facts(5)[OF assms(3)]
  have ra: "reread h a \<noteq> Undefined" "reread h c \<noteq> Undefined" "reread h b \<noteq> Undefined"
    using assms by (cases a; simp; cases b; simp; cases c; simp)+
  have rr: "revive (Suc n) f (reread h a) = Ret (reread h a)"
    "revive (Suc n) f (reread h c) = Ret (reread h c)" for n f
    using assms(1,3) by (cases a; simp; cases c; simp)+
  show ?thesis
    using ta tb tc ga gb gc fa fb fc ra
    by (simp add: step_defs ca cb cc rr)
qed


theorem scalar_array_roundtrip_witness:
  "roundtrip text_host 5 (Arr [Num ''1'', Bool False, Str ''x'']) NoReplacer None =
     Ret (Arr [Num ''1'', Bool False, Str ''x'']) \<and>
   roundtrip text_host 5 (Arr [Num ''1'', Bool False, Str ''x'']) NoReplacer
     (Some (\<lambda>k v. if k = KNum 1 then Inr Undefined else Inr v)) =
     Ret (Arr [Num ''1'', Str ''x''])"
  using scalar_array_roundtrip[of text_host "Num ''1''" "Bool False" "Str ''x''"]
  by (simp add: text_host_def)

text \<open>An object of three such scalars under the names a, b and c comes back as it was.\<close>

theorem scalar_object_roundtrip:
  assumes "scalar h x" and "scalar h y" and "scalar h z"
  shows "roundtrip h 5 (Obj [(''a'', x), (''b'', y), (''c'', z)]) NoReplacer None =
           Ret (Obj [(''a'', reread h x), (''b'', reread h y), (''c'', reread h z)])"
proof -
  obtain ta where ta: "ta \<noteq> []" "stringifyValue h x = Inr [Text ta]"
    "text_value h (getTagname x) ta = Some (reread h x)"
    using scalar_facts(1)[OF assms(1)] by blast
  obtain tb where tb: "tb \<noteq> []" "stringifyValue h y = Inr [Text tb]"
    "text_value h (getTagname y) tb = Some (reread h y)"
    using scalar_facts(1)[OF assms(2)] by blast
  obtain tc where tc: "tc \<noteq> []" "stringifyValue h z = Inr [Text tc]"
    "text_value h (getTagname z) tc = Some (reread h z)"
    using scalar_facts(1)[OF assms(3)] by blast
  note ga = scalar_facts(2)[OF assms(1)] and gb = scalar_facts(2)[OF assms(2)]
    and gc = scalar_facts(2)[OF assms(3)]
  note fa = scalar_facts(3,4)[OF assms(1)] and fb = scalar_facts(3,4)[OF assms(2)]
    and fc = scalar_facts(3,4)[OF assms(3)]
  note ca = scalar_facts(5)[OF assms(1)] and cb = scalar_facts(5)[OF assms(2)]
    and cc = scalar_facts(5)[OF assms(3)]
  show ?thesis
    using ta tb tc ga gb gc fa fb fc
    by (simp add: step_defs ca cb cc)
qed

theorem scalar_object_roundtrip_witness:
  "roundtrip text_host 5 (Obj [(''a'', Num ''1''), (''b'', Bool False), (''c'', Str ''x'')])
     NoReplacer None = Ret (Obj [(''a'', Num ''1''), (''b'', Bool False), (''c'', Str ''x'')])"
  using scalar_object_roundtrip[of text_host "Num ''1''" "Bool False" "Str ''x''"]
  by (simp add: text_host_def)

text \<open>
  The array of three numbers, read back with a reviver that omits every number, is the
  empty array, on every host.
\<close>

theorem reviver_dropping_numbers_empties_array:
  "roundtrip h 5 (Arr [Num a, Num b, Num c]) NoReplacer
     (Some (\<lambda>k v. case v of Num n \<Rightarrow> Inr Undefined | _ \<Rightarrow> Inr v)) = Ret (Arr [])"
  by (cases "Number_toString h a = []"; cases "Number_toString h b = []";
      cases "Number_toString h c = []")
    (simp_all add: run_defs)


end
